theory Spec2Isabelle
  imports Complex_Main "HOL-Library.Stream" "HOL-Library.Multiset"
begin

section \<open>The genetic optimizer of \<^verbatim>\<open>optimizer.py\<close>\<close>

text \<open>
  The class \<^verbatim>\<open>Optimizer\<close> evolves a population of \<^verbatim>\<open>Network\<close> objects. The objects
  are shared by reference and \<^verbatim>\<open>mutate\<close> writes into one of them, so the embedding keeps
  an explicit object store: a population is a list of addresses into the store. The
  module \<^verbatim>\<open>random\<close> is the only source of nondeterminism; it is an explicit stream of
  raw draws, one consumed by every call into the module.

  A Python float is a double. The rates of the optimizer and the losses are finite
  doubles, kept as the real numbers they denote, so that comparing them is exact; the
  three arithmetic operations of the code (the sum and the quotient of \<^verbatim>\<open>grade\<close>, the
  product of \<^verbatim>\<open>evolve\<close>) round their exact result to the nearest double, ties to even,
  and overflow to an infinity.
\<close>

subsection \<open>Errors\<close>

text \<open>
  The first six are the exceptions of Python that the code can raise.
  \<^verbatim>\<open>FitnessNotComputed\<close> is the failure of reading the loss of a network that was never
  evaluated (see \<open>get_loss\<close>). \<^verbatim>\<open>EmptyPopulation\<close> and \<^verbatim>\<open>InsufficientParents\<close> are named
  by the specification; no line of \<^verbatim>\<open>optimizer.py\<close> raises them, and no definition below
  returns them.
\<close>

datatype error =
    TypeError | IndexError | KeyError | ValueError | ZeroDivisionError | OverflowError
  | FitnessNotComputed | EmptyPopulation | InsufficientParents

subsection \<open>Networks and the object store\<close>

text \<open>
  Modelled from the spec: the class \<^verbatim>\<open>Network\<close> (module \<^verbatim>\<open>network\<close>) is imported by
  \<^verbatim>\<open>optimizer.py\<close> but is not among the sources. The specification describes a genome as
  a mapping from parameter names to values that "carries an optional scalar fitness/cost
  attribute, set only after evaluation". The attribute \<^verbatim>\<open>network\<close> is the mapping, the
  attribute \<^verbatim>\<open>loss\<close> the cost.
\<close>

record ('k, 'v) Network =
  network :: "'k \<rightharpoonup> 'v"
  loss :: "real option"

text \<open>
  Modelled from the spec: \<^verbatim>\<open>Network(nn_param_choices)\<close> followed by
  \<^verbatim>\<open>network.create_set(child)\<close>, of the missing class \<^verbatim>\<open>Network\<close>: "constructs a
  configuration from an explicit mapping"; the cost is set only after evaluation.
\<close>

definition create_set :: "('k \<rightharpoonup> 'v) \<Rightarrow> ('k, 'v) Network" where
  "create_set child = \<lparr>network = child, loss = None\<rparr>"

text \<open>
  Modelled from the spec: the read of the attribute \<^verbatim>\<open>loss\<close> of the missing class
  \<^verbatim>\<open>Network\<close>. The specification says that reading the fitness of a genome that was
  never evaluated fails with \<^verbatim>\<open>FitnessNotComputed\<close>.
\<close>

definition get_loss :: "('k, 'v) Network \<Rightarrow> error + real" where
  "get_loss g = (case loss g of None \<Rightarrow> Inl FitnessNotComputed | Some c \<Rightarrow> Inr c)"

type_synonym addr = nat

text \<open>
  The store is the list of all objects allocated so far; the address of an object is its
  index, and a new object is appended. A reference held by the program is always below
  the length of the store. Each \<^verbatim>\<open>Network\<close> owns its mapping.
\<close>

record ('k, 'v) world =
  heap :: "('k, 'v) Network list"
  rand :: "nat stream"

subsection \<open>The module \<^verbatim>\<open>random\<close>\<close>

text \<open>
  \<^verbatim>\<open>random.random()\<close> returns a multiple of \<open>2\<^sup>-\<^sup>5\<^sup>3\<close> in \<open>[0, 1)\<close>;
  \<^verbatim>\<open>random.choice(seq)\<close> returns an element of \<^verbatim>\<open>seq\<close> and raises \<^verbatim>\<open>IndexError\<close> on an
  empty one; \<^verbatim>\<open>random.randint(a, b)\<close> returns an integer of \<open>[a, b]\<close> and raises
  \<^verbatim>\<open>ValueError\<close> when the range is empty. As the raw draw ranges over all naturals, each
  of them ranges over all its outcomes.
\<close>

definition random_random :: "nat stream \<Rightarrow> real \<times> nat stream" where
  "random_random r = (real (shd r mod 9007199254740992) / 9007199254740992, stl r)"

definition random_choice :: "'a list \<Rightarrow> nat stream \<Rightarrow> error + ('a \<times> nat stream)" where
  "random_choice xs r =
     (if xs = [] then Inl IndexError else Inr (xs ! (shd r mod length xs), stl r))"

definition random_randint :: "int \<Rightarrow> int \<Rightarrow> nat stream \<Rightarrow> error + (int \<times> nat stream)" where
  "random_randint a b r =
     (if b < a then Inl ValueError
      else Inr (a + int (shd r mod nat (b - a + 1)), stl r))"

subsection \<open>Floating-point arithmetic\<close>

text \<open>
  The result of an operation on doubles: a finite double or an infinity. No operation
  below produces a NaN from finite operands.
\<close>

datatype pyfloat = Finite real | PosInf | NegInf

text \<open>\<^verbatim>\<open>int.bit_length()\<close>: the number of binary digits of a natural number.\<close>

fun bit_length :: "nat \<Rightarrow> nat" where
  "bit_length n = (if n = 0 then 0 else Suc (bit_length (n div 2)))"

declare bit_length.simps [simp del]

text \<open>The power \<open>2\<^sup>q\<close> for an integer \<open>q\<close>.\<close>

definition pow2 :: "int \<Rightarrow> real" where
  "pow2 q = (if 0 \<le> q then 2 ^ nat q else 1 / 2 ^ nat (- q))"

text \<open>
  The binary exponent of a non-zero real: the \<open>e\<close> with \<open>2\<^sup>e \<le> |x| < 2\<^sup>e\<^sup>+\<^sup>1\<close>
  (lemma \<open>expo_bounds\<close>).
\<close>

definition expo :: "real \<Rightarrow> int" where
  "expo x =
     (if 1 \<le> \<bar>x\<bar> then int (bit_length (nat \<lfloor>\<bar>x\<bar>\<rfloor>)) - 1
      else - int (bit_length (nat (\<lceil>1 / \<bar>x\<bar>\<rceil> - 1))))"

text \<open>The nearest integer, a tie going to the even one.\<close>

definition round_half_even :: "real \<Rightarrow> int" where
  "round_half_even m =
     (let f = \<lfloor>m\<rfloor>; d = m - of_int f
      in if d < 1 / 2 then f else if 1 / 2 < d then f + 1 else if even f then f else f + 1)"

text \<open>
  Rounding to double precision (IEEE 754 binary64, round to nearest, ties to even): a
  significand of 53 bits, the spacing never below \<open>2\<^sup>-\<^sup>1\<^sup>0\<^sup>7\<^sup>4\<close> (subnormal numbers), and
  an infinity when the rounded magnitude reaches \<open>2\<^sup>1\<^sup>0\<^sup>2\<^sup>4\<close>.
\<close>

definition round_double :: "real \<Rightarrow> pyfloat" where
  "round_double x =
     (if x = 0 then Finite 0
      else
        let q = max (expo x - 52) (- 1074);
            y = of_int (round_half_even (x / pow2 q)) * pow2 q
        in if pow2 1024 \<le> \<bar>y\<bar> then (if 0 < x then PosInf else NegInf) else Finite y)"

text \<open>
  An \<^verbatim>\<open>int\<close> operand of a float operation is converted to a float first; an integer
  too large for a double raises \<^verbatim>\<open>OverflowError\<close>.
\<close>

definition float_of_nat :: "nat \<Rightarrow> error + real" where
  "float_of_nat n =
     (case round_double (real n) of Finite d \<Rightarrow> Inr d | _ \<Rightarrow> Inl OverflowError)"

text \<open>\<^verbatim>\<open>add(x, y)\<close> of a float \<open>x\<close> and a finite float \<open>y\<close>.\<close>

fun float_add :: "pyfloat \<Rightarrow> real \<Rightarrow> pyfloat" where
  "float_add (Finite a) b = round_double (a + b)"
| "float_add PosInf b = PosInf"
| "float_add NegInf b = NegInf"

text \<open>\<^verbatim>\<open>x / n\<close> of a float \<open>x\<close> and the length \<open>n\<close> of a list.\<close>

definition float_div :: "pyfloat \<Rightarrow> nat \<Rightarrow> error + pyfloat" where
  "float_div x n =
     (case float_of_nat n of
        Inl e \<Rightarrow> Inl e
      | Inr d \<Rightarrow>
          if d = 0 then Inl ZeroDivisionError
          else Inr (case x of
                      Finite a \<Rightarrow> round_double (a / d)
                    | PosInf \<Rightarrow> PosInf
                    | NegInf \<Rightarrow> NegInf))"

text \<open>\<^verbatim>\<open>n * x\<close> of the length \<open>n\<close> of a list and a finite float \<open>x\<close>.\<close>

definition float_mul :: "nat \<Rightarrow> real \<Rightarrow> error + pyfloat" where
  "float_mul n x =
     (case float_of_nat n of
        Inl e \<Rightarrow> Inl e
      | Inr d \<Rightarrow> Inr (round_double (d * x)))"

subsection \<open>Python's \<^verbatim>\<open>int()\<close> and slices\<close>

text \<open>\<^verbatim>\<open>int(x)\<close> truncates towards zero and raises \<^verbatim>\<open>OverflowError\<close> on an infinity.\<close>

definition py_int :: "pyfloat \<Rightarrow> error + int" where
  "py_int x =
     (case x of
        Finite a \<Rightarrow> Inr (if a < 0 then \<lceil>a\<rceil> else \<lfloor>a\<rfloor>)
      | _ \<Rightarrow> Inl OverflowError)"

definition slice_to :: "int \<Rightarrow> 'a list \<Rightarrow> 'a list" where
  "slice_to i xs = (if i < 0 then take (nat (int (length xs) + i)) xs else take (nat i) xs)"

definition slice_from :: "int \<Rightarrow> 'a list \<Rightarrow> 'a list" where
  "slice_from i xs = (if i < 0 then drop (nat (int (length xs) + i)) xs else drop (nat i) xs)"

subsection \<open>The optimizer\<close>

text \<open>
  \<^verbatim>\<open>nn_param_choices\<close> is a dictionary from parameter names to lists of values; it is
  iterated in insertion order, so it is an association list.
\<close>

record ('k, 'v) Optimizer =
  nn_param_choices :: "('k \<times> 'v list) list"
  retain :: real
  random_select :: real
  mutate_chance :: real

text \<open>\<^verbatim>\<open>fitness\<close>: \<^verbatim>\<open>return network.loss\<close>.\<close>

definition fitness :: "('k, 'v) Network \<Rightarrow> error + real" where
  "fitness g = get_loss g"

text \<open>
  \<^verbatim>\<open>grade\<close>: \<^verbatim>\<open>reduce(add, ...)\<close> without an initial value raises \<^verbatim>\<open>TypeError\<close>
  on an empty iterable; otherwise it starts from the first fitness and adds the others
  from the left, each sum rounded. The generator calls \<^verbatim>\<open>fitness\<close> as \<^verbatim>\<open>reduce\<close>
  consumes it. The sum is then divided by \<^verbatim>\<open>len(pop)\<close>.
\<close>

fun reduce_add :: "('k, 'v) Network list \<Rightarrow> pyfloat \<Rightarrow> addr list \<Rightarrow> error + pyfloat" where
  "reduce_add h acc [] = Inr acc"
| "reduce_add h acc (a # as) =
     (case fitness (h ! a) of
        Inl e \<Rightarrow> Inl e
      | Inr c \<Rightarrow> reduce_add h (float_add acc c) as)"

definition grade :: "('k, 'v) Network list \<Rightarrow> addr list \<Rightarrow> error + pyfloat" where
  "grade h pop =
     (case pop of
        [] \<Rightarrow> Inl TypeError
      | a # as \<Rightarrow>
          (case fitness (h ! a) of
             Inl e \<Rightarrow> Inl e
           | Inr c \<Rightarrow>
               (case reduce_add h (Finite c) as of
                  Inl e \<Rightarrow> Inl e
                | Inr summed \<Rightarrow> float_div summed (length pop))))"

text \<open>
  \<^verbatim>\<open>mutate\<close>: one key drawn from the keys of \<^verbatim>\<open>nn_param_choices\<close>, one value drawn from
  the list of that key, written into the mapping of the object at address \<open>a\<close>; the same
  object is returned.
\<close>

definition mutate ::
  "('k, 'v) Optimizer \<Rightarrow> addr \<Rightarrow> ('k, 'v) world \<Rightarrow> error + (addr \<times> ('k, 'v) world)" where
  "mutate opt a s =
     (case random_choice (map fst (nn_param_choices opt)) (rand s) of
        Inl e \<Rightarrow> Inl e
      | Inr (mutation, r1) \<Rightarrow>
          (case map_of (nn_param_choices opt) mutation of
             None \<Rightarrow> Inl KeyError
           | Some vs \<Rightarrow>
               (case random_choice vs r1 of
                  Inl e \<Rightarrow> Inl e
                | Inr (v, r2) \<Rightarrow>
                    Inr (a, \<lparr>heap = (heap s)[a := (heap s ! a)
                                \<lparr>network := (network (heap s ! a))(mutation \<mapsto> v)\<rparr>],
                             rand = r2\<rparr>))))"

text \<open>
  The inner loop of \<^verbatim>\<open>breed\<close>: for every parameter, the child gets the value of the
  mother or of the father. A parent without the parameter raises \<^verbatim>\<open>KeyError\<close>.
\<close>

fun pick_params ::
  "'k list \<Rightarrow> ('k, 'v) Network \<Rightarrow> ('k, 'v) Network \<Rightarrow> ('k \<rightharpoonup> 'v) \<Rightarrow> nat stream
     \<Rightarrow> error + (('k \<rightharpoonup> 'v) \<times> nat stream)" where
  "pick_params [] mother father child r = Inr (child, r)"
| "pick_params (param # ps) mother father child r =
     (case network mother param of
        None \<Rightarrow> Inl KeyError
      | Some x \<Rightarrow>
          (case network father param of
             None \<Rightarrow> Inl KeyError
           | Some y \<Rightarrow>
               (case random_choice [x, y] r of
                  Inl e \<Rightarrow> Inl e
                | Inr (v, r') \<Rightarrow> pick_params ps mother father (child(param \<mapsto> v)) r')))"

text \<open>
  One round of the outer loop of \<^verbatim>\<open>breed\<close>: build the mapping, allocate a new
  \<^verbatim>\<open>Network\<close> for it, and mutate that object when \<^verbatim>\<open>mutate_chance > random.random()\<close>.
\<close>

definition make_child ::
  "('k, 'v) Optimizer \<Rightarrow> addr \<Rightarrow> addr \<Rightarrow> ('k, 'v) world \<Rightarrow> error + (addr \<times> ('k, 'v) world)" where
  "make_child opt mother father s =
     (case pick_params (map fst (nn_param_choices opt))
             (heap s ! mother) (heap s ! father) Map.empty (rand s) of
        Inl e \<Rightarrow> Inl e
      | Inr (child, r1) \<Rightarrow>
          (let a = length (heap s);
               (u, r2) = random_random r1;
               s1 = \<lparr>heap = heap s @ [create_set child], rand = r2\<rparr>
           in if mutate_chance opt > u then mutate opt a s1 else Inr (a, s1)))"

fun breed_rounds ::
  "('k, 'v) Optimizer \<Rightarrow> addr \<Rightarrow> addr \<Rightarrow> nat list \<Rightarrow> addr list \<Rightarrow> ('k, 'v) world
     \<Rightarrow> error + (addr list \<times> ('k, 'v) world)" where
  "breed_rounds opt mother father [] children s = Inr (children, s)"
| "breed_rounds opt mother father (i # rounds) children s =
     (case make_child opt mother father s of
        Inl e \<Rightarrow> Inl e
      | Inr (c, s') \<Rightarrow> breed_rounds opt mother father rounds (children @ [c]) s')"

definition breed ::
  "('k, 'v) Optimizer \<Rightarrow> addr \<Rightarrow> addr \<Rightarrow> ('k, 'v) world
     \<Rightarrow> error + (addr list \<times> ('k, 'v) world)" where
  "breed opt mother father s = breed_rounds opt mother father [0, 1] [] s"

subsection \<open>\<^verbatim>\<open>evolve\<close>\<close>

text \<open>The scores of the population, in order; the first failing \<^verbatim>\<open>fitness\<close> aborts.\<close>

fun scores :: "('k, 'v) Network list \<Rightarrow> addr list \<Rightarrow> error + (real \<times> addr) list" where
  "scores h [] = Inr []"
| "scores h (a # as) =
     (case fitness (h ! a) of
        Inl e \<Rightarrow> Inl e
      | Inr c \<Rightarrow> (case scores h as of Inl e \<Rightarrow> Inl e | Inr g \<Rightarrow> Inr ((c, a) # g)))"

text \<open>\<^verbatim>\<open>sorted(graded, key=lambda x: x[0], reverse=False)\<close> is a stable sort.\<close>

definition graded :: "('k, 'v) Network list \<Rightarrow> addr list \<Rightarrow> error + addr list" where
  "graded h pop =
     (case scores h pop of Inl e \<Rightarrow> Inl e | Inr g \<Rightarrow> Inr (map snd (sort_key fst g)))"

text \<open>\<^verbatim>\<open>retain_length = int(len(graded) * self.retain)\<close>\<close>

definition retain_length :: "('k, 'v) Optimizer \<Rightarrow> addr list \<Rightarrow> error + int" where
  "retain_length opt g =
     (case float_mul (length g) (retain opt) of Inl e \<Rightarrow> Inl e | Inr x \<Rightarrow> py_int x)"

text \<open>The loop over \<^verbatim>\<open>graded[retain_length:]\<close>: one draw for each individual.\<close>

fun select_random ::
  "('k, 'v) Optimizer \<Rightarrow> addr list \<Rightarrow> addr list \<Rightarrow> nat stream \<Rightarrow> addr list \<times> nat stream" where
  "select_random opt [] parents r = (parents, r)"
| "select_random opt (individual # rest) parents r =
     (let (u, r') = random_random r
      in select_random opt rest
           (if random_select opt > u then parents @ [individual] else parents) r')"

text \<open>
  The selection of \<^verbatim>\<open>evolve\<close>: the parents are \<^verbatim>\<open>graded[:retain_length]\<close>, followed by
  the individuals of \<^verbatim>\<open>graded[retain_length:]\<close> that the draws keep.
\<close>

definition select_parents ::
  "('k, 'v) Optimizer \<Rightarrow> addr list \<Rightarrow> nat stream \<Rightarrow> error + (addr list \<times> nat stream)" where
  "select_parents opt g r =
     (case retain_length opt g of
        Inl e \<Rightarrow> Inl e
      | Inr n \<Rightarrow> Inr (select_random opt (slice_from n g) (slice_to n g) r))"

text \<open>\<^verbatim>\<open>for baby in babies: if len(children) < desired_length: children.append(baby)\<close>\<close>

fun add_babies :: "int \<Rightarrow> addr list \<Rightarrow> addr list \<Rightarrow> addr list" where
  "add_babies desired_length children [] = children"
| "add_babies desired_length children (baby # babies) =
     add_babies desired_length
       (if int (length children) < desired_length then children @ [baby] else children) babies"

text \<open>
  The \<^verbatim>\<open>while\<close> loop. Nothing bounds the number of rounds, so the loop is a partial
  function: \<open>None\<close> is a run that never leaves the loop.
\<close>

partial_function (option) evolve_loop ::
  "('k, 'v) Optimizer \<Rightarrow> addr list \<Rightarrow> int \<Rightarrow> int \<Rightarrow> addr list \<Rightarrow> ('k, 'v) world
     \<Rightarrow> (error + (addr list \<times> ('k, 'v) world)) option" where
  "evolve_loop opt parents parents_length desired_length children s =
     (if int (length children) < desired_length then
        (case random_randint 0 (parents_length - 1) (rand s) of
           Inl e \<Rightarrow> Some (Inl e)
         | Inr (male, r1) \<Rightarrow>
             (case random_randint 0 (parents_length - 1) r1 of
                Inl e \<Rightarrow> Some (Inl e)
              | Inr (female, r2) \<Rightarrow>
                  if male \<noteq> female then
                    (case breed opt (parents ! nat male) (parents ! nat female)
                            (s\<lparr>rand := r2\<rparr>) of
                       Inl e \<Rightarrow> Some (Inl e)
                     | Inr (babies, s') \<Rightarrow>
                         evolve_loop opt parents parents_length desired_length
                           (add_babies desired_length children babies) s')
                  else evolve_loop opt parents parents_length desired_length children
                         (s\<lparr>rand := r2\<rparr>)))
      else Some (Inr (children, s)))"

definition evolve ::
  "('k, 'v) Optimizer \<Rightarrow> addr list \<Rightarrow> ('k, 'v) world
     \<Rightarrow> (error + (addr list \<times> ('k, 'v) world)) option" where
  "evolve opt pop s =
     (case graded (heap s) pop of
        Inl e \<Rightarrow> Some (Inl e)
      | Inr g \<Rightarrow>
          (case select_parents opt g (rand s) of
             Inl e \<Rightarrow> Some (Inl e)
           | Inr (parents, r1) \<Rightarrow>
               (let parents_length = int (length parents);
                    desired_length = int (length pop) - parents_length
                in case evolve_loop opt parents parents_length desired_length []
                          (s\<lparr>rand := r1\<rparr>) of
                     None \<Rightarrow> None
                   | Some (Inl e) \<Rightarrow> Some (Inl e)
                   | Some (Inr (children, s')) \<Rightarrow> Some (Inr (parents @ children, s')))))"

section \<open>Vocabulary of the properties\<close>

text \<open>The keys of the parameter space, and the values a key admits.\<close>

definition param_keys :: "('k, 'v) Optimizer \<Rightarrow> 'k set" where
  "param_keys opt = set (map fst (nn_param_choices opt))"

definition admissible :: "('k, 'v) Optimizer \<Rightarrow> 'k \<Rightarrow> 'v \<Rightarrow> bool" where
  "admissible opt k v \<longleftrightarrow>
     (case map_of (nn_param_choices opt) k of None \<Rightarrow> False | Some vs \<Rightarrow> v \<in> set vs)"

text \<open>The genome \<open>g\<close> has, at key \<open>k\<close>, the value of one of the parents \<open>M\<close> and \<open>F\<close>.\<close>

definition from_parents ::
  "('k, 'v) Network \<Rightarrow> ('k, 'v) Network \<Rightarrow> ('k, 'v) Network \<Rightarrow> 'k \<Rightarrow> bool" where
  "from_parents M F g k \<longleftrightarrow> network g k = network M k \<or> network g k = network F k"

text \<open>
  The draws of one round of \<^verbatim>\<open>breed\<close> on the source \<open>r\<close>: one \<^verbatim>\<open>random.choice\<close> for
  every key, then the \<^verbatim>\<open>random.random()\<close> that decides the mutation, then the two draws
  of \<^verbatim>\<open>mutate\<close> when it is below \<^verbatim>\<open>mutate_chance\<close>.
\<close>

definition mutation_draw :: "('k, 'v) Optimizer \<Rightarrow> nat stream \<Rightarrow> real" where
  "mutation_draw opt r = fst (random_random (sdrop (length (nn_param_choices opt)) r))"

definition child_draws :: "('k, 'v) Optimizer \<Rightarrow> nat stream \<Rightarrow> nat" where
  "child_draws opt r =
     length (nn_param_choices opt) + (if mutate_chance opt > mutation_draw opt r then 3 else 1)"

text \<open>
  What \<^verbatim>\<open>breed\<close> guarantees of a child \<open>g\<close> whose mutation draw was \<open>u\<close>: when \<open>u\<close> is below
  \<^verbatim>\<open>mutate_chance\<close>, one key holds an admissible value and all the others the value of a
  parent; otherwise every key holds the value of a parent.
\<close>

definition bred ::
  "('k, 'v) Optimizer \<Rightarrow> real \<Rightarrow> ('k, 'v) Network \<Rightarrow> ('k, 'v) Network \<Rightarrow> ('k, 'v) Network
     \<Rightarrow> bool" where
  "bred opt u M F g \<longleftrightarrow>
     (mutate_chance opt > u \<longrightarrow>
        (\<exists>mk\<in>param_keys opt.
           (\<exists>v. network g mk = Some v \<and> admissible opt mk v) \<and>
           (\<forall>k\<in>param_keys opt. k \<noteq> mk \<longrightarrow> from_parents M F g k))) \<and>
     (\<not> mutate_chance opt > u \<longrightarrow> (\<forall>k\<in>param_keys opt. from_parents M F g k))"

text \<open>A real number that is a double: rounding leaves it as it is.\<close>

definition is_double :: "real \<Rightarrow> bool" where
  "is_double x \<longleftrightarrow> round_double x = Finite x"

text \<open>
  A stream of draws in which neighbours differ by one: whatever the number of parents
  (at least two), two successive draws never give the same index.
\<close>

definition alternating :: "nat stream \<Rightarrow> bool" where
  "alternating r \<longleftrightarrow> (\<forall>i. r !! Suc i = Suc (r !! i) \<or> r !! i = Suc (r !! Suc i))"

section \<open>Concrete inputs\<close>

text \<open>
  The parameter space and the two genomes of the specification's example,
  \<^verbatim>\<open>A = {"layers": 1, "neurons": 16}\<close> and \<^verbatim>\<open>B = {"layers": 3, "neurons": 64}\<close>, and
  two more genomes. The costs (0.875, 0.25, 0.5 and 0.75) and the rates of the optimizer
  (0.5, 0.125 and 0.25) are doubles.
\<close>

definition example_space :: "(string \<times> int list) list" where
  "example_space = [(''layers'', [1, 2, 3]), (''neurons'', [16, 32, 64])]"

definition genome_A :: "(string, int) Network" where
  "genome_A = \<lparr>network = [''layers'' \<mapsto> 1, ''neurons'' \<mapsto> 16], loss = Some (7 / 8)\<rparr>"

definition genome_B :: "(string, int) Network" where
  "genome_B = \<lparr>network = [''layers'' \<mapsto> 3, ''neurons'' \<mapsto> 64], loss = Some (1 / 4)\<rparr>"

definition genome_C :: "(string, int) Network" where
  "genome_C = \<lparr>network = [''layers'' \<mapsto> 2, ''neurons'' \<mapsto> 32], loss = Some (1 / 2)\<rparr>"

definition genome_D :: "(string, int) Network" where
  "genome_D = \<lparr>network = [''layers'' \<mapsto> 3, ''neurons'' \<mapsto> 16], loss = Some (3 / 4)\<rparr>"

definition example_opt :: "(string, int) Optimizer" where
  "example_opt = \<lparr>nn_param_choices = example_space, retain = 1 / 2, random_select = 1 / 8,
     mutate_chance = 1 / 4\<rparr>"

definition example_heap :: "(string, int) Network list" where
  "example_heap = [genome_A, genome_B, genome_C, genome_D]"

text \<open>
  Draws for a run of \<^verbatim>\<open>evolve\<close> on four genomes: two high draws (nobody is kept at
  random), the indices 0 and 1, then the draws of \<^verbatim>\<open>breed\<close>; the second child is mutated.
\<close>

definition example_draws :: "nat stream" where
  "example_draws = 4503599627370496 ## 4503599627370496 ## 0 ## 1 ## 0 ## 1 ##
     4503599627370496 ## 1 ## 0 ## 0 ## 1 ## 0 ## sconst 0"

text \<open>The draws \<open>2\<^sup>5\<^sup>2, 2\<^sup>5\<^sup>2 + 1, 2\<^sup>5\<^sup>2, \<dots>\<close>: \<^verbatim>\<open>random.random()\<close> is about one half.\<close>

definition flip_draws :: "nat stream" where
  "flip_draws = smap (\<lambda>i. 4503599627370496 + i mod 2) (siterate Suc 0)"

text \<open>
  Three genomes whose costs are the doubles that Python writes \<^verbatim>\<open>0.1\<close>, \<^verbatim>\<open>0.2\<close> and
  \<^verbatim>\<open>0.3\<close>.
\<close>

definition tenths_heap :: "(string, int) Network list" where
  "tenths_heap =
     [\<lparr>network = [''layers'' \<mapsto> 1, ''neurons'' \<mapsto> 16],
        loss = Some (3602879701896397 / 36028797018963968)\<rparr>,
      \<lparr>network = [''layers'' \<mapsto> 2, ''neurons'' \<mapsto> 32],
        loss = Some (3602879701896397 / 18014398509481984)\<rparr>,
      \<lparr>network = [''layers'' \<mapsto> 3, ''neurons'' \<mapsto> 64],
        loss = Some (5404319552844595 / 18014398509481984)\<rparr>]"

text \<open>The double that Python writes \<^verbatim>\<open>0.7\<close>.\<close>

definition seven_tenths :: real where
  "seven_tenths = 3152519739159347 / 4503599627370496"

section \<open>Auxiliary facts\<close>

subsection \<open>Rounding\<close>

lemma bit_length_0: "bit_length 0 = 0"
  by (simp add: bit_length.simps)

lemma bit_length_1: "bit_length (Suc 0) = Suc 0"
  by (simp add: bit_length.simps [of "Suc 0"] bit_length_0)

lemma bit_length_bounds:
  "0 < n \<Longrightarrow> 2 ^ (bit_length n - 1) \<le> n \<and> n < 2 ^ bit_length n"
proof (induction n rule: bit_length.induct)
  case (1 n)
  show ?case
  proof (cases "n div 2 = 0")
    case True
    with 1(2) have "n = 1" by (auto simp: div_eq_0_iff)
    then show ?thesis
      by (simp add: bit_length_1)
  next
    case False
    with 1 have IH: "2 ^ (bit_length (n div 2) - 1) \<le> n div 2"
      "n div 2 < 2 ^ bit_length (n div 2)"
      by auto
    from False have pos: "0 < bit_length (n div 2)"
      by (simp add: bit_length.simps [of "n div 2"])
    have bl: "bit_length n = Suc (bit_length (n div 2))"
      using 1(2) by (simp add: bit_length.simps [of n])
    from pos have "(2::nat) ^ bit_length (n div 2) = 2 * 2 ^ (bit_length (n div 2) - 1)"
      by (cases "bit_length (n div 2)") simp_all
    with IH(1) have "2 ^ bit_length (n div 2) \<le> 2 * (n div 2)"
      by simp
    also have "\<dots> \<le> n" by simp
    finally have lower: "2 ^ (bit_length n - 1) \<le> n"
      by (simp add: bl)
    from IH(2) have "n < 2 * 2 ^ bit_length (n div 2)"
      by linarith
    then show ?thesis
      using lower by (simp add: bl)
  qed
qed

lemma pow2_pos: "0 < pow2 q"
  by (simp add: pow2_def)

lemma pow2_of_nat: "pow2 (int k) = 2 ^ k"
  by (simp add: pow2_def)

lemma pow2_neg: "pow2 (- int k) = 1 / 2 ^ k"
  by (cases "k = 0") (simp_all add: pow2_def)

lemma pow2_Suc: "pow2 (q + 1) = 2 * pow2 q"
proof (cases "0 \<le> q")
  case True
  then show ?thesis by (simp add: pow2_def nat_add_distrib)
next
  case False
  then obtain k where q: "q = - int (Suc k)"
    by (metis neg_int_cases not_le of_nat_0 Suc_pred' of_nat_0_less_iff neg_0_less_iff_less)
  have "pow2 (- int (Suc k) + 1) = pow2 (- int k)" by simp
  then show ?thesis
    by (simp add: q pow2_neg del: of_nat_Suc)
qed

lemma expo_bounds:
  assumes "x \<noteq> 0"
  shows "pow2 (expo x) \<le> \<bar>x\<bar> \<and> \<bar>x\<bar> < pow2 (expo x + 1)"
proof (cases "1 \<le> \<bar>x\<bar>")
  case True
  define n where "n = nat \<lfloor>\<bar>x\<bar>\<rfloor>"
  from True have n0: "0 < n" by (simp add: n_def)
  have nle: "real n \<le> \<bar>x\<bar>" and nlt: "\<bar>x\<bar> < real n + 1"
    unfolding n_def using True by (simp_all add: of_nat_nat)
  from bit_length_bounds [OF n0] have b: "2 ^ (bit_length n - 1) \<le> n" "n < 2 ^ bit_length n"
    by auto
  from n0 have blpos: "0 < bit_length n"
    by (simp add: bit_length.simps [of n])
  have e: "expo x = int (bit_length n - 1)"
    using True blpos by (simp add: expo_def n_def of_nat_diff)
  have "pow2 (expo x) = 2 ^ (bit_length n - 1)"
    by (simp add: e pow2_of_nat)
  also have "\<dots> \<le> real n"
    using b(1) by (metis of_nat_le_iff of_nat_numeral of_nat_power)
  finally have lower: "pow2 (expo x) \<le> \<bar>x\<bar>"
    using nle by linarith
  have "expo x + 1 = int (bit_length n)"
    using blpos by (simp add: e of_nat_diff)
  then have "pow2 (expo x + 1) = 2 ^ bit_length n"
    by (simp add: pow2_of_nat)
  moreover from b(2) have "real n + 1 \<le> 2 ^ bit_length n"
    by (metis Suc_leI of_nat_Suc of_nat_le_iff of_nat_numeral of_nat_power add.commute)
  ultimately have "\<bar>x\<bar> < pow2 (expo x + 1)"
    using nlt by linarith
  with lower show ?thesis by blast
next
  case False
  with assms have x: "0 < \<bar>x\<bar>" "\<bar>x\<bar> < 1" by simp_all
  define y where "y = 1 / \<bar>x\<bar>"
  from x have y1: "1 < y" by (simp add: y_def)
  define c where "c = nat (\<lceil>y\<rceil> - 1)"
  from y1 have c0: "0 < c" unfolding c_def by linarith
  have cy: "real c < y" "y \<le> real c + 1"
    unfolding c_def using y1 by (simp_all add: of_nat_nat) linarith
  from bit_length_bounds [OF c0] have b: "2 ^ (bit_length c - 1) \<le> c" "c < 2 ^ bit_length c"
    by auto
  from c0 have blpos: "0 < bit_length c"
    by (simp add: bit_length.simps [of c])
  have e: "expo x = - int (bit_length c)"
    using False by (simp add: expo_def c_def y_def)
  from b(2) have "real c + 1 \<le> 2 ^ bit_length c"
    by (metis Suc_leI of_nat_Suc of_nat_le_iff of_nat_numeral of_nat_power add.commute)
  with cy(2) have "y \<le> 2 ^ bit_length c" by linarith
  then have "1 / 2 ^ bit_length c \<le> \<bar>x\<bar>"
    using x(1) by (simp add: y_def field_simps)
  then have lower: "pow2 (expo x) \<le> \<bar>x\<bar>"
    by (simp add: e pow2_neg)
  have "expo x + 1 = - int (bit_length c - 1)"
    using blpos by (simp add: e of_nat_diff)
  then have p: "pow2 (expo x + 1) = 1 / 2 ^ (bit_length c - 1)"
    by (simp only: pow2_neg)
  from b(1) have "2 ^ (bit_length c - 1) \<le> real c"
    by (metis of_nat_le_iff of_nat_numeral of_nat_power)
  with cy(1) have "2 ^ (bit_length c - 1) < y" by linarith
  then have "\<bar>x\<bar> < 1 / 2 ^ (bit_length c - 1)"
    using x(1) by (simp add: y_def field_simps)
  with lower p show ?thesis by simp
qed

lemma round_half_even_bounds: "\<lfloor>m\<rfloor> \<le> round_half_even m \<and> round_half_even m \<le> \<lceil>m\<rceil>"
proof -
  have "round_half_even m = \<lfloor>m\<rfloor> \<or> (round_half_even m = \<lfloor>m\<rfloor> + 1 \<and> of_int \<lfloor>m\<rfloor> < m)"
    by (auto simp: round_half_even_def Let_def)
  then show ?thesis
    by (auto simp: ceiling_altdef)
qed

lemma round_half_even_of_int: "round_half_even (of_int k) = k"
  by (simp add: round_half_even_def)

lemma pow2_powi: "pow2 q = 2 powi q"
  by (simp add: pow2_def power_int_def power_inverse field_simps)

lemma pow2_mono: "a \<le> b \<Longrightarrow> pow2 a \<le> pow2 b"
  by (simp add: pow2_powi power_int_increasing)

lemma round_double_between:
  assumes x0: "0 \<le> x" and x53: "x < 2 ^ 53"
  shows "\<exists>y. round_double x = Finite y \<and> of_int \<lfloor>x\<rfloor> \<le> y \<and> y \<le> of_int \<lceil>x\<rceil>"
proof (cases "x = 0")
  case True
  then show ?thesis by (simp add: round_double_def)
next
  case False
  with x0 have xpos: "0 < x" by simp
  define q where "q = max (expo x - 52) (- 1074)"
  have "expo x \<le> 52"
  proof (rule ccontr)
    assume "\<not> expo x \<le> 52"
    then have "53 \<le> expo x" by simp
    then have "pow2 53 \<le> pow2 (expo x)" by (rule pow2_mono)
    also have "\<dots> \<le> \<bar>x\<bar>" using expo_bounds [OF False] by simp
    finally show False using x53 xpos by (simp add: pow2_def)
  qed
  then have q0: "q \<le> 0" by (simp add: q_def)
  define j where "j = nat (- q)"
  have pq: "pow2 q = 1 / 2 ^ j"
    using q0 pow2_neg [of j] by (simp add: j_def)
  define m where "m = x * 2 ^ j"
  have xm: "x / pow2 q = m"
    by (simp add: pq m_def)
  define f where "f = round_half_even m"
  from round_half_even_bounds [of m] have fb: "\<lfloor>m\<rfloor> \<le> f" "f \<le> \<lceil>m\<rceil>"
    by (simp_all add: f_def)
  define y where "y = of_int f * pow2 q"
  have "of_int (\<lfloor>x\<rfloor> * 2 ^ j) \<le> m"
    by (simp add: m_def)
  then have "\<lfloor>x\<rfloor> * 2 ^ j \<le> \<lfloor>m\<rfloor>"
    by (simp only: le_floor_iff)
  with fb(1) have "\<lfloor>x\<rfloor> * 2 ^ j \<le> f" by linarith
  then have "real_of_int (\<lfloor>x\<rfloor> * 2 ^ j) \<le> real_of_int f"
    by (simp only: of_int_le_iff)
  then have lower: "of_int \<lfloor>x\<rfloor> \<le> y"
    by (simp add: y_def pq field_simps)
  have "m \<le> of_int (\<lceil>x\<rceil> * 2 ^ j)"
    by (simp add: m_def)
  then have "\<lceil>m\<rceil> \<le> \<lceil>x\<rceil> * 2 ^ j"
    by (simp only: ceiling_le_iff)
  with fb(2) have "f \<le> \<lceil>x\<rceil> * 2 ^ j" by linarith
  then have "real_of_int f \<le> real_of_int (\<lceil>x\<rceil> * 2 ^ j)"
    by (simp only: of_int_le_iff)
  then have upper: "y \<le> of_int \<lceil>x\<rceil>"
    by (simp add: y_def pq field_simps)
  from x53 have "\<lceil>x\<rceil> \<le> 2 ^ 53"
    by (simp add: ceiling_le_iff less_imp_le)
  then have "real_of_int \<lceil>x\<rceil> \<le> 2 ^ 53"
    by (metis of_int_le_iff of_int_numeral of_int_power)
  with upper have "y \<le> 2 ^ 53" by linarith
  moreover have "(2::real) ^ 53 < 2 ^ 1024"
    by (rule power_strict_increasing) simp_all
  moreover from lower x0 have "0 \<le> y"
    by (meson of_int_0_le_iff zero_le_floor order_trans)
  ultimately have "\<not> pow2 1024 \<le> \<bar>y\<bar>"
    by (simp add: pow2_of_nat [of 1024, simplified])
  then have "round_double x = Finite y"
    using False by (simp add: round_double_def Let_def q_def [symmetric] xm f_def [symmetric] y_def)
  with lower upper show ?thesis by blast
qed

lemma round_double_of_nat:
  assumes "n < 2 ^ 53"
  shows "round_double (real n) = Finite (real n)"
proof -
  from assms have "real n < 2 ^ 53"
    by (metis of_nat_less_iff of_nat_numeral of_nat_power)
  from round_double_between [OF _ this] obtain y where
    "round_double (real n) = Finite y" "of_int \<lfloor>real n\<rfloor> \<le> y" "y \<le> of_int \<lceil>real n\<rceil>"
    by auto
  then show ?thesis by simp
qed

lemma float_of_nat_exact: "n < 2 ^ 53 \<Longrightarrow> float_of_nat n = Inr (real n)"
  by (simp add: float_of_nat_def round_double_of_nat)

lemma py_int_between:
  assumes "0 \<le> x" and "x < 2 ^ 53"
  shows "\<exists>y. round_double x = Finite y \<and> py_int (round_double x) = Inr \<lfloor>y\<rfloor> \<and>
           \<lfloor>x\<rfloor> \<le> \<lfloor>y\<rfloor> \<and> \<lfloor>y\<rfloor> \<le> \<lceil>x\<rceil>"
proof -
  from round_double_between [OF assms] obtain y where
    y: "round_double x = Finite y" and lower: "of_int \<lfloor>x\<rfloor> \<le> y" and upper: "y \<le> of_int \<lceil>x\<rceil>"
    by blast
  from assms(1) lower have "0 \<le> y"
    by (meson of_int_0_le_iff zero_le_floor order_trans)
  then have "py_int (round_double x) = Inr \<lfloor>y\<rfloor>"
    by (simp add: y py_int_def)
  moreover from lower have "\<lfloor>x\<rfloor> \<le> \<lfloor>y\<rfloor>"
    by (simp only: le_floor_iff)
  moreover from upper have "\<lfloor>y\<rfloor> \<le> \<lceil>x\<rceil>"
    by (metis floor_mono floor_of_int)
  ultimately show ?thesis using y by blast
qed

lemma retain_length_between:
  assumes "0 \<le> retain opt" and "retain opt \<le> 1" and "length g < 2 ^ 53"
  shows "\<exists>y. round_double (real (length g) * retain opt) = Finite y \<and>
           retain_length opt g = Inr \<lfloor>y\<rfloor> \<and>
           \<lfloor>real (length g) * retain opt\<rfloor> \<le> \<lfloor>y\<rfloor> \<and>
           \<lfloor>y\<rfloor> \<le> \<lceil>real (length g) * retain opt\<rceil> \<and>
           0 \<le> \<lfloor>y\<rfloor> \<and> \<lfloor>y\<rfloor> \<le> int (length g)"
proof -
  let ?x = "real (length g) * retain opt"
  have x0: "0 \<le> ?x" using assms(1) by simp
  have xN: "?x \<le> real (length g)"
    using assms(2) by (simp add: mult_left_le)
  from assms(3) have "real (length g) < 2 ^ 53"
    by (metis of_nat_less_iff of_nat_numeral of_nat_power)
  with xN have x53: "?x < 2 ^ 53" by linarith
  from py_int_between [OF x0 x53] obtain y where
    y: "round_double ?x = Finite y" and n: "py_int (round_double ?x) = Inr \<lfloor>y\<rfloor>"
    and lower: "\<lfloor>?x\<rfloor> \<le> \<lfloor>y\<rfloor>" and upper: "\<lfloor>y\<rfloor> \<le> \<lceil>?x\<rceil>"
    by blast
  have "retain_length opt g = Inr \<lfloor>y\<rfloor>"
    by (simp add: retain_length_def float_mul_def float_of_nat_exact [OF assms(3)] n)
  moreover from x0 lower have "0 \<le> \<lfloor>y\<rfloor>"
    by (meson zero_le_floor order_trans)
  moreover from xN have "\<lceil>?x\<rceil> \<le> int (length g)"
    by (simp add: ceiling_le_iff)
  ultimately show ?thesis
    using y lower upper by (intro exI [of _ y]) linarith
qed

lemma retain_length_all:
  assumes "retain opt = 1" and "length g < 2 ^ 53"
  shows "retain_length opt g = Inr (int (length g))"
proof -
  have "0 \<le> retain opt" "retain opt \<le> 1"
    by (simp_all add: assms(1))
  from retain_length_between [OF this assms(2)] obtain y :: real where
    "retain_length opt g = Inr \<lfloor>y\<rfloor>" "\<lfloor>real (length g) * retain opt\<rfloor> \<le> \<lfloor>y\<rfloor>"
    "\<lfloor>y\<rfloor> \<le> \<lceil>real (length g) * retain opt\<rceil>"
    by blast
  then show ?thesis
    by (simp add: assms(1))
qed

subsection \<open>Draws\<close>

lemma random_choice_mem:
  "xs \<noteq> [] \<Longrightarrow> \<exists>x. random_choice xs r = Inr (x, stl r) \<and> x \<in> set xs"
  by (simp add: random_choice_def)

lemma random_choice_pair:
  "random_choice [x, y] r = Inr (x, stl r) \<or> random_choice [x, y] r = Inr (y, stl r)"
  using random_choice_mem [of "[x, y]" r] by auto

lemma stl_sdrop: "stl (sdrop n r) = sdrop (Suc n) r"
  by (simp only: sdrop.simps sdrop_stl)

lemma random_random_range: "0 \<le> fst (random_random r) \<and> fst (random_random r) < 1"
  by (simp add: random_random_def)

lemma random_random_snd: "snd (random_random r) = stl r"
  by (simp add: random_random_def)

lemma alternating_sdrop: "alternating r \<Longrightarrow> alternating (sdrop n r)"
  by (simp add: alternating_def sdrop_snth)

lemma Suc_mod_neq:
  assumes "2 \<le> p"
  shows "Suc b mod p \<noteq> b mod p"
  using assms by (auto simp: mod_Suc split: if_splits)

lemma alternating_distinct:
  assumes "alternating r" and "2 \<le> p"
  shows "shd r mod p \<noteq> shd (stl r) mod p"
proof -
  from assms(1) have "r !! Suc 0 = Suc (r !! 0) \<or> r !! 0 = Suc (r !! Suc 0)"
    unfolding alternating_def by blast
  then have "shd (stl r) = Suc (shd r) \<or> shd r = Suc (shd (stl r))"
    by simp
  with Suc_mod_neq [OF assms(2)] show ?thesis
    by metis
qed

lemma randint_index:
  assumes "0 < p"
  shows "random_randint 0 (int p - 1) r = Inr (int (shd r mod p), stl r)"
  using assms by (simp add: random_randint_def)

subsection \<open>Runs of \<^verbatim>\<open>mutate\<close> and \<^verbatim>\<open>breed\<close> that succeed\<close>

lemma pick_params_ok:
  assumes "\<forall>k\<in>set ks. network M k \<noteq> None \<and> network F k \<noteq> None"
  shows "\<exists>child'. pick_params ks M F child r = Inr (child', sdrop (length ks) r) \<and>
           (\<forall>k\<in>set ks. child' k = network M k \<or> child' k = network F k) \<and>
           (\<forall>k. k \<notin> set ks \<longrightarrow> child' k = child k)"
  using assms
proof (induction ks arbitrary: child r)
  case Nil
  then show ?case by simp
next
  case (Cons p ps)
  from Cons.prems obtain x y where x: "network M p = Some x" and y: "network F p = Some y"
    by auto
  from random_choice_pair [of x y r] obtain v where
    v: "random_choice [x, y] r = Inr (v, stl r)" and vxy: "v = x \<or> v = y"
    by auto
  from Cons.prems have "\<forall>k\<in>set ps. network M k \<noteq> None \<and> network F k \<noteq> None"
    by simp
  from Cons.IH [OF this, of "child(p \<mapsto> v)" "stl r"] obtain child' where
    run: "pick_params ps M F (child(p \<mapsto> v)) (stl r) = Inr (child', sdrop (length ps) (stl r))"
    and inside: "\<forall>k\<in>set ps. child' k = network M k \<or> child' k = network F k"
    and outside: "\<forall>k. k \<notin> set ps \<longrightarrow> child' k = (child(p \<mapsto> v)) k"
    by blast
  have "pick_params (p # ps) M F child r = Inr (child', sdrop (length (p # ps)) r)"
    by (simp add: x y v run)
  moreover have "child' p = network M p \<or> child' p = network F p"
  proof (cases "p \<in> set ps")
    case True
    with inside show ?thesis by blast
  next
    case False
    with outside have "child' p = Some v" by simp
    with vxy x y show ?thesis by auto
  qed
  moreover have "\<forall>k. k \<notin> set (p # ps) \<longrightarrow> child' k = child k"
    using outside by auto
  ultimately show ?case
    using inside by auto
qed

lemma mutate_ok:
  assumes space: "nn_param_choices opt \<noteq> []"
    and doms: "\<forall>kv\<in>set (nn_param_choices opt). snd kv \<noteq> []"
  shows "\<exists>k vs v. mutate opt a s =
             Inr (a, \<lparr>heap = (heap s)[a := (heap s ! a)
                        \<lparr>network := (network (heap s ! a))(k \<mapsto> v)\<rparr>],
                      rand = stl (stl (rand s))\<rparr>) \<and>
           k \<in> param_keys opt \<and>
           map_of (nn_param_choices opt) k = Some vs \<and> v \<in> set vs"
proof -
  from space have "map fst (nn_param_choices opt) \<noteq> []" by simp
  from random_choice_mem [OF this, of "rand s"] obtain k where
    k: "random_choice (map fst (nn_param_choices opt)) (rand s) = Inr (k, stl (rand s))"
    and kin: "k \<in> fst ` set (nn_param_choices opt)"
    by auto
  from kin obtain vs where vs: "map_of (nn_param_choices opt) k = Some vs"
    by (metis map_of_eq_None_iff not_Some_eq)
  then have "(k, vs) \<in> set (nn_param_choices opt)"
    by (rule map_of_SomeD)
  with doms have "vs \<noteq> []" by force
  from random_choice_mem [OF this, of "stl (rand s)"] obtain v where
    v: "random_choice vs (stl (rand s)) = Inr (v, stl (stl (rand s)))" and vin: "v \<in> set vs"
    by auto
  show ?thesis
    using kin vs vin by (auto simp: mutate_def k v param_keys_def)
qed

lemma make_child_ok:
  assumes space: "nn_param_choices opt \<noteq> []"
    and doms: "\<forall>kv\<in>set (nn_param_choices opt). snd kv \<noteq> []"
    and covers: "\<forall>k\<in>param_keys opt. network (heap s ! mother) k \<noteq> None \<and>
                   network (heap s ! father) k \<noteq> None"
  shows "\<exists>g. make_child opt mother father s =
            Inr (length (heap s),
                 \<lparr>heap = heap s @ [g], rand = sdrop (child_draws opt (rand s)) (rand s)\<rparr>) \<and>
          bred opt (mutation_draw opt (rand s)) (heap s ! mother) (heap s ! father) g"
proof -
  let ?M = "heap s ! mother" and ?F = "heap s ! father"
  let ?ks = "map fst (nn_param_choices opt)"
  define n where "n = length (nn_param_choices opt)"
  define r1 where "r1 = sdrop n (rand s)"
  define u where "u = mutation_draw opt (rand s)"
  from covers have "\<forall>k\<in>set ?ks. network ?M k \<noteq> None \<and> network ?F k \<noteq> None"
    by (simp add: param_keys_def)
  from pick_params_ok [OF this, of Map.empty "rand s"] obtain child where
    pick: "pick_params ?ks ?M ?F Map.empty (rand s) = Inr (child, r1)"
    and inside: "\<forall>k\<in>set ?ks. child k = network ?M k \<or> child k = network ?F k"
    by (auto simp: r1_def n_def)
  have u: "random_random r1 = (u, stl r1)"
    using random_random_snd [of r1]
    by (cases "random_random r1") (simp add: u_def mutation_draw_def r1_def n_def)
  let ?s1 = "\<lparr>heap = heap s @ [create_set child], rand = stl r1\<rparr>"
  show ?thesis
  proof (cases "mutate_chance opt > u")
    case False
    then have "make_child opt mother father s = Inr (length (heap s), ?s1)"
      by (simp add: make_child_def pick u)
    moreover have "child_draws opt (rand s) = Suc n"
      using False by (simp add: child_draws_def u_def n_def)
    then have "stl r1 = sdrop (child_draws opt (rand s)) (rand s)"
      by (simp only: r1_def stl_sdrop)
    moreover have "bred opt u ?M ?F (create_set child)"
      using inside False by (auto simp: bred_def from_parents_def create_set_def param_keys_def)
    ultimately show ?thesis
      unfolding u_def by (intro exI [of _ "create_set child"]) simp
  next
    case True
    from mutate_ok [OF space doms, of "length (heap s)" ?s1] obtain k vs v where
      mut: "mutate opt (length (heap s)) ?s1 =
              Inr (length (heap s),
                   \<lparr>heap = heap s @ [(create_set child)\<lparr>network := (network (create_set child))(k \<mapsto> v)\<rparr>],
                    rand = stl (stl (stl r1))\<rparr>)"
      and kin: "k \<in> param_keys opt"
      and vs: "map_of (nn_param_choices opt) k = Some vs" and vin: "v \<in> set vs"
      by auto
    let ?g = "(create_set child)\<lparr>network := (network (create_set child))(k \<mapsto> v)\<rparr>"
    from True have "make_child opt mother father s =
        Inr (length (heap s), \<lparr>heap = heap s @ [?g], rand = stl (stl (stl r1))\<rparr>)"
      by (simp add: make_child_def pick u mut)
    moreover have "child_draws opt (rand s) = Suc (Suc (Suc n))"
      using True by (simp add: child_draws_def u_def n_def)
    then have "stl (stl (stl r1)) = sdrop (child_draws opt (rand s)) (rand s)"
      by (simp only: r1_def stl_sdrop)
    moreover have "bred opt u ?M ?F ?g"
    proof -
      have "\<forall>k'\<in>param_keys opt. k' \<noteq> k \<longrightarrow> from_parents ?M ?F ?g k'"
        using inside by (auto simp: from_parents_def create_set_def param_keys_def)
      moreover have "\<exists>v. network ?g k = Some v \<and> admissible opt k v"
        using vs vin by (simp add: admissible_def)
      ultimately show ?thesis
        unfolding bred_def using True kin by blast
    qed
    ultimately show ?thesis
      unfolding u_def by (intro exI [of _ ?g]) simp
  qed
qed

lemma breed_ok:
  assumes space: "nn_param_choices opt \<noteq> []"
    and doms: "\<forall>kv\<in>set (nn_param_choices opt). snd kv \<noteq> []"
    and valid: "mother < length (heap s)" "father < length (heap s)"
    and covers: "\<forall>k\<in>param_keys opt. network (heap s ! mother) k \<noteq> None \<and>
                   network (heap s ! father) k \<noteq> None"
    and r1: "r1 = sdrop (child_draws opt (rand s)) (rand s)"
    and r2: "r2 = sdrop (child_draws opt r1) r1"
  shows "\<exists>g1 g2. breed opt mother father s =
            Inr ([length (heap s), Suc (length (heap s))],
                 \<lparr>heap = heap s @ [g1, g2], rand = r2\<rparr>) \<and>
          bred opt (mutation_draw opt (rand s)) (heap s ! mother) (heap s ! father) g1 \<and>
          bred opt (mutation_draw opt r1) (heap s ! mother) (heap s ! father) g2"
proof -
  from make_child_ok [OF space doms covers] obtain g1 where
    c1: "make_child opt mother father s =
           Inr (length (heap s), \<lparr>heap = heap s @ [g1], rand = r1\<rparr>)"
    and b1: "bred opt (mutation_draw opt (rand s)) (heap s ! mother) (heap s ! father) g1"
    unfolding r1 by blast
  let ?s1 = "\<lparr>heap = heap s @ [g1], rand = r1\<rparr>"
  have same: "heap ?s1 ! mother = heap s ! mother" "heap ?s1 ! father = heap s ! father"
    using valid by (simp_all add: nth_append)
  with covers have "\<forall>k\<in>param_keys opt. network (heap ?s1 ! mother) k \<noteq> None \<and>
                   network (heap ?s1 ! father) k \<noteq> None"
    by simp
  from make_child_ok [OF space doms this] obtain g2 where
    c2: "make_child opt mother father ?s1 =
           Inr (length (heap ?s1), \<lparr>heap = heap ?s1 @ [g2], rand = r2\<rparr>)"
    and b2: "bred opt (mutation_draw opt (rand ?s1)) (heap ?s1 ! mother) (heap ?s1 ! father) g2"
    unfolding r2 by auto
  have "breed opt mother father s =
          Inr ([length (heap s), Suc (length (heap s))], \<lparr>heap = heap s @ [g1, g2], rand = r2\<rparr>)"
    using c2 by (simp add: breed_def c1)
  with b1 b2 same show ?thesis
    by auto
qed

lemma breed_returns:
  assumes "nn_param_choices opt \<noteq> []"
    and "\<forall>kv\<in>set (nn_param_choices opt). snd kv \<noteq> []"
    and "mother < length (heap s)" "father < length (heap s)"
    and "\<forall>k\<in>param_keys opt. network (heap s ! mother) k \<noteq> None \<and>
           network (heap s ! father) k \<noteq> None"
  shows "\<exists>g1 g2 n. breed opt mother father s =
            Inr ([length (heap s), Suc (length (heap s))],
                 \<lparr>heap = heap s @ [g1, g2], rand = sdrop n (rand s)\<rparr>)"
proof -
  from breed_ok [OF assms refl refl] obtain g1 g2 where
    "breed opt mother father s =
       Inr ([length (heap s), Suc (length (heap s))],
            \<lparr>heap = heap s @ [g1, g2],
               rand = sdrop (child_draws opt (sdrop (child_draws opt (rand s)) (rand s)))
                        (sdrop (child_draws opt (rand s)) (rand s))\<rparr>)"
    by blast
  then show ?thesis
    by (simp only: sdrop_add) blast
qed

subsection \<open>The store only grows\<close>

lemma mutate_Inr:
  assumes "mutate opt a s = Inr (b, s')"
  shows "b = a \<and> (\<exists>g. heap s' = (heap s)[a := g])"
  using assms by (auto simp: mutate_def split: sum.splits option.splits prod.splits)

lemma make_child_Inr:
  assumes "make_child opt mother father s = Inr (c, s')"
  shows "c = length (heap s) \<and> (\<exists>g. heap s' = heap s @ [g])"
proof -
  from assms obtain child r1 where
    pick: "pick_params (map fst (nn_param_choices opt)) (heap s ! mother) (heap s ! father)
             Map.empty (rand s) = Inr (child, r1)"
    by (auto simp: make_child_def split: sum.splits)
  obtain u r2 where u: "random_random r1 = (u, r2)"
    by (cases "random_random r1")
  let ?s1 = "\<lparr>heap = heap s @ [create_set child], rand = r2\<rparr>"
  show ?thesis
  proof (cases "mutate_chance opt > u")
    case False
    with assms pick u show ?thesis
      by (auto simp: make_child_def)
  next
    case True
    with assms pick u have "mutate opt (length (heap s)) ?s1 = Inr (c, s')"
      by (simp add: make_child_def)
    from mutate_Inr [OF this] show ?thesis by auto
  qed
qed

lemma breed_Inr:
  assumes "breed opt mother father s = Inr (babies, s')"
  shows "\<exists>g1 g2. babies = [length (heap s), Suc (length (heap s))] \<and>
           heap s' = heap s @ [g1, g2]"
proof -
  from assms obtain c1 s1 c2 where
    m1: "make_child opt mother father s = Inr (c1, s1)"
    and m2: "make_child opt mother father s1 = Inr (c2, s')"
    and b: "babies = [c1, c2]"
    by (auto simp: breed_def split: sum.splits)
  from make_child_Inr [OF m1] make_child_Inr [OF m2] b show ?thesis
    by auto
qed

subsection \<open>Ranking and selection\<close>

lemma scores_ok:
  "map (\<lambda>a. fitness (h ! a)) pop = map Inr cs \<Longrightarrow> scores h pop = Inr (zip cs pop)"
proof (induction pop arbitrary: cs)
  case Nil
  then show ?case by simp
next
  case (Cons a as)
  then obtain c cs' where "cs = c # cs'" "fitness (h ! a) = Inr c"
    "map (\<lambda>a. fitness (h ! a)) as = map Inr cs'"
    by (cases cs) auto
  with Cons.IH [of cs'] show ?case by simp
qed

lemma scores_Inr:
  "scores h pop = Inr g \<Longrightarrow> map snd g = pop \<and> (\<forall>(c, a)\<in>set g. fitness (h ! a) = Inr c)"
  by (induction pop arbitrary: g) (auto split: sum.splits)

lemma graded_Inr:
  assumes "graded h pop = Inr g"
  shows "mset g = mset pop \<and> (\<exists>cs. map (\<lambda>a. fitness (h ! a)) g = map Inr cs \<and> sorted cs)"
proof -
  from assms obtain sc where sc: "scores h pop = Inr sc" and g: "g = map snd (sort_key fst sc)"
    by (auto simp: graded_def split: sum.splits)
  from scores_Inr [OF sc] have pop: "map snd sc = pop"
    and fit: "\<forall>(c, a)\<in>set sc. fitness (h ! a) = Inr c"
    by auto
  have "mset g = image_mset snd (mset (sort_key fst sc))"
    by (simp add: g)
  also have "\<dots> = image_mset snd (mset sc)" by simp
  also have "\<dots> = mset (map snd sc)" by simp
  finally have m: "mset g = mset pop" by (simp add: pop)
  have "map (\<lambda>a. fitness (h ! a)) g = map Inr (map fst (sort_key fst sc))"
    using fit by (auto simp: g)
  moreover have "sorted (map fst (sort_key fst sc))"
    by (rule sorted_sort_key)
  ultimately show ?thesis using m by blast
qed

lemma graded_ok:
  assumes "\<forall>a\<in>set pop. \<exists>c. fitness (h ! a) = Inr c"
  shows "\<exists>g. graded h pop = Inr g"
proof -
  have "map (\<lambda>a. fitness (h ! a)) pop = map Inr (map (\<lambda>a. projr (fitness (h ! a))) pop)"
    using assms by auto
  from scores_ok [OF this] show ?thesis
    by (simp add: graded_def)
qed

lemma select_random_extra:
  "select_random opt rest parents r = (parents', r') \<Longrightarrow>
   \<exists>extra. parents' = parents @ extra \<and> mset extra \<subseteq># mset rest"
proof (induction rest arbitrary: parents r)
  case Nil
  then show ?case by simp
next
  case (Cons x rest)
  obtain u r1 where u: "random_random r = (u, r1)"
    by (cases "random_random r")
  let ?p = "if random_select opt > u then parents @ [x] else parents"
  from Cons.prems u have "select_random opt rest ?p r1 = (parents', r')"
    by simp
  from Cons.IH [OF this] obtain extra where
    e: "parents' = ?p @ extra" and sub: "mset extra \<subseteq># mset rest"
    by blast
  show ?case
  proof (cases "random_select opt > u")
    case True
    with e have "parents' = parents @ (x # extra)" by simp
    moreover from sub have "mset (x # extra) \<subseteq># mset (x # rest)" by simp
    ultimately show ?thesis by blast
  next
    case False
    with e have "parents' = parents @ extra" by simp
    moreover have "mset rest \<subseteq># mset (x # rest)" by simp
    with sub have "mset extra \<subseteq># mset (x # rest)"
      by (rule subset_mset.order_trans)
    ultimately show ?thesis by blast
  qed
qed

lemma slice_append: "slice_to i xs @ slice_from i xs = xs"
  by (simp add: slice_to_def slice_from_def)

subsection \<open>The breeding loop\<close>

lemma add_babies_length:
  "int (length children) \<le> dl \<Longrightarrow> int (length (add_babies dl children babies)) \<le> dl"
  by (induction babies arbitrary: children) auto

lemma add_babies_set:
  "set (add_babies dl children babies) \<subseteq> set children \<union> set babies"
proof (induction babies arbitrary: children)
  case Nil
  then show ?case by simp
next
  case (Cons b babies)
  from Cons.IH [of "if int (length children) < dl then children @ [b] else children"]
  show ?case by (auto split: if_splits)
qed

lemma add_babies_two:
  assumes "int (length children) < dl"
  shows "length children < length (add_babies dl children [a, b])"
  using assms by simp

lemma evolve_loop_invariant:
  assumes run: "evolve_loop opt parents pl dl children s = Some (Inr (children', s'))"
    and init: "I children s"
    and step: "\<And>children s r m f babies s'. I children s \<Longrightarrow> int (length children) < dl \<Longrightarrow>
                 breed opt m f (s\<lparr>rand := r\<rparr>) = Inr (babies, s') \<Longrightarrow>
                 I (add_babies dl children babies) s'"
    and skip: "\<And>children s r. I children s \<Longrightarrow> I children (s\<lparr>rand := r\<rparr>)"
  shows "I children' s' \<and> \<not> int (length children') < dl"
proof -
  have "opt' = opt \<longrightarrow> dl' = dl \<longrightarrow> I children s \<longrightarrow>
        (\<forall>c' t'. y = Inr (c', t') \<longrightarrow> I c' t' \<and> \<not> int (length c') < dl)"
    if "evolve_loop opt' parents pl dl' children s = Some y" for opt' dl' y
    using that
  proof (induction opt' parents pl dl' children s y rule: evolve_loop.raw_induct [rotated, consumes 1])
    case (1 loop opt' parents pl dl' children s y)
    show ?case
    proof (intro impI allI)
      fix c' t'
      assume eq: "opt' = opt" "dl' = dl" and inv: "I children s" and y: "y = Inr (c', t')"
      show "I c' t' \<and> \<not> int (length c') < dl"
      proof (cases "int (length children) < dl")
        case False
        with 1(2) eq y inv show ?thesis by simp
      next
        case True
        with 1(2) eq obtain male r1 female r2 where
          m: "random_randint 0 (pl - 1) (rand s) = Inr (male, r1)"
          and f: "random_randint 0 (pl - 1) r1 = Inr (female, r2)"
          by (auto simp: y split: sum.splits)
        show ?thesis
        proof (cases "male = female")
          case same: True
          with 1(2) True eq m f have "loop opt parents pl dl children (s\<lparr>rand := r2\<rparr>) = Some y"
            by simp
          from 1(1) [OF this] skip [OF inv] y show ?thesis by simp
        next
          case diff: False
          with 1(2) True eq m f obtain babies s1 where
            b: "breed opt (parents ! nat male) (parents ! nat female) (s\<lparr>rand := r2\<rparr>) = Inr (babies, s1)"
            and rec: "loop opt parents pl dl (add_babies dl children babies) s1 = Some y"
            by (auto simp: y split: sum.splits)
          from 1(1) [OF rec] step [OF inv True b] y show ?thesis by simp
        qed
      qed
    qed
  qed
  from this [OF run] init show ?thesis by simp
qed

lemma randint_0_0: "random_randint 0 0 r = Inr (0, stl r)"
  by (simp add: random_randint_def)

lemma evolve_loop_one_parent:
  assumes "int (length children) < dl"
  shows "evolve_loop opt parents 1 dl children s = None"
proof -
  have "pl = 1 \<longrightarrow> int (length children) < dl \<longrightarrow> False"
    if "evolve_loop opt parents pl dl children s = Some y" for pl y
    using that
  proof (induction opt parents pl dl children s y rule: evolve_loop.raw_induct [rotated, consumes 1])
    case (1 loop opt parents pl dl children s y)
    show ?case
    proof (intro impI)
      assume pl: "pl = 1" and less: "int (length children) < dl"
      with 1(2) have "loop opt parents pl dl children (s\<lparr>rand := stl (stl (rand s))\<rparr>) = Some y"
        by (simp add: randint_0_0)
      from 1(1) [OF this] pl less show False by simp
    qed
  qed
  with assms have "evolve_loop opt parents 1 dl children s \<noteq> Some y" for y
    by blast
  then show ?thesis by (cases "evolve_loop opt parents 1 dl children s") auto
qed

lemma evolve_loop_no_parent:
  assumes "int (length children) < dl"
  shows "evolve_loop opt parents 0 dl children s = Some (Inl ValueError)"
  using assms by (subst evolve_loop.simps) (simp add: random_randint_def)

lemma evolve_loop_children:
  assumes run: "evolve_loop opt parents pl dl [] s = Some (Inr (children, s'))"
    and dl: "0 \<le> dl"
  shows "int (length children) = dl \<and> (\<exists>new. heap s' = heap s @ new) \<and>
         (\<forall>c\<in>set children. length (heap s) \<le> c \<and> c < length (heap s'))"
proof -
  define I where "I = (\<lambda>(cs :: addr list) (t :: ('a, 'b) world).
     int (length cs) \<le> dl \<and> (\<exists>new. heap t = heap s @ new) \<and>
     (\<forall>c\<in>set cs. length (heap s) \<le> c \<and> c < length (heap t)))"
  have init: "I [] s"
    using dl by (simp add: I_def)
  have step: "I (add_babies dl cs babies) t'"
    if "I cs t" and "int (length cs) < dl"
      and "breed opt m f (t\<lparr>rand := r\<rparr>) = Inr (babies, t')"
    for cs t r m f babies t'
  proof -
    from breed_Inr [OF that(3)] obtain g1 g2 where
      b: "babies = [length (heap t), Suc (length (heap t))]" and h: "heap t' = heap t @ [g1, g2]"
      by auto
    from that(1) obtain new where new: "heap t = heap s @ new"
      and old: "\<forall>c\<in>set cs. length (heap s) \<le> c \<and> c < length (heap t)"
      and len: "int (length cs) \<le> dl"
      by (auto simp: I_def)
    have "\<forall>c\<in>set cs \<union> set babies. length (heap s) \<le> c \<and> c < length (heap t')"
      using old by (auto simp: b h new)
    with add_babies_set [of dl cs babies]
    have "\<forall>c\<in>set (add_babies dl cs babies). length (heap s) \<le> c \<and> c < length (heap t')"
      by blast
    moreover have "heap t' = heap s @ (new @ [g1, g2])"
      by (simp add: h new)
    ultimately show ?thesis
      using add_babies_length [OF len] unfolding I_def by blast
  qed
  have skip: "I cs (t\<lparr>rand := r\<rparr>)" if "I cs t" for cs t r
    using that by (simp add: I_def)
  have "I children s' \<and> \<not> int (length children) < dl"
    by (rule evolve_loop_invariant [where I = I, OF run init]) (rule step skip; assumption)+
  then show ?thesis
    by (auto simp: I_def)
qed

lemma evolve_loop_returns:
  assumes p2: "2 \<le> length parents"
    and space: "nn_param_choices opt \<noteq> []"
    and doms: "\<forall>kv\<in>set (nn_param_choices opt). snd kv \<noteq> []"
    and valid: "\<forall>a\<in>set parents. a < length (heap s) \<and>
                  (\<forall>k\<in>param_keys opt. network (heap s ! a) k \<noteq> None)"
    and alt: "alternating (rand s)"
  shows "\<exists>children' s'. evolve_loop opt parents (int (length parents)) dl children s =
           Some (Inr (children', s'))"
  using valid alt
proof (induction "nat (dl - int (length children))" arbitrary: children s rule: less_induct)
  case less
  let ?p = "length parents"
  show ?case
  proof (cases "int (length children) < dl")
    case False
    then show ?thesis
      by (subst evolve_loop.simps) simp
  next
    case True
    let ?r = "rand s"
    let ?m = "shd ?r mod ?p" and ?f = "shd (stl ?r) mod ?p"
    from p2 have p0: "0 < ?p" by linarith
    have neq: "?m \<noteq> ?f"
      using alternating_distinct [OF less.prems(2) p2] .
    have "?m < ?p" "?f < ?p"
      using p0 by simp_all
    then have mf: "parents ! ?m \<in> set parents" "parents ! ?f \<in> set parents"
      by (simp_all only: nth_mem)
    let ?s2 = "s\<lparr>rand := stl (stl ?r)\<rparr>"
    from mf less.prems(1) have
      v: "parents ! ?m < length (heap ?s2)" "parents ! ?f < length (heap ?s2)"
      and c: "\<forall>k\<in>param_keys opt. network (heap ?s2 ! (parents ! ?m)) k \<noteq> None \<and>
                network (heap ?s2 ! (parents ! ?f)) k \<noteq> None"
      by auto
    from breed_returns [OF space doms v c] obtain g1 g2 n where
      b: "breed opt (parents ! ?m) (parents ! ?f) ?s2 =
            Inr ([length (heap s), Suc (length (heap s))],
                 \<lparr>heap = heap s @ [g1, g2], rand = sdrop n (stl (stl ?r))\<rparr>)"
      by auto
    let ?s3 = "\<lparr>heap = heap s @ [g1, g2], rand = sdrop n (stl (stl ?r))\<rparr>"
    let ?babies = "[length (heap s), Suc (length (heap s))]"
    let ?children = "add_babies dl children ?babies"
    have "length children < length ?children"
      using True by (rule add_babies_two)
    with True have dec: "nat (dl - int (length ?children)) < nat (dl - int (length children))"
      by linarith
    have valid3: "\<forall>a\<in>set parents. a < length (heap ?s3) \<and>
                  (\<forall>k\<in>param_keys opt. network (heap ?s3 ! a) k \<noteq> None)"
      using less.prems(1) by (auto simp: nth_append)
    have "sdrop n (stl (stl ?r)) = sdrop (Suc (Suc n)) ?r"
      by (simp only: sdrop.simps)
    then have "rand ?s3 = sdrop (Suc (Suc n)) ?r"
      by (simp only: world.simps)
    with less.prems(2) have alt3: "alternating (rand ?s3)"
      by (simp only: alternating_sdrop)
    from less.hyps [OF dec valid3 alt3] obtain children' s' where
      rec: "evolve_loop opt parents (int ?p) dl ?children ?s3 = Some (Inr (children', s'))"
      by blast
    have "evolve_loop opt parents (int ?p) dl children s = Some (Inr (children', s'))"
      using True neq b rec
      by (subst evolve_loop.simps) (simp add: randint_index [OF p0] del: add_babies.simps)
    then show ?thesis by blast
  qed
qed

subsection \<open>\<^verbatim>\<open>evolve\<close> as a whole\<close>

lemma select_random_rand:
  "select_random opt rest parents r = (parents', r') \<Longrightarrow> r' = sdrop (length rest) r"
proof (induction rest arbitrary: parents r)
  case Nil
  then show ?case by simp
next
  case (Cons x rest)
  obtain u where u: "random_random r = (u, stl r)"
    using random_random_snd [of r] by (cases "random_random r") simp
  from Cons.prems u have
    "select_random opt rest (if random_select opt > u then parents @ [x] else parents) (stl r)
       = (parents', r')"
    by simp
  from Cons.IH [OF this] show ?case by simp
qed

lemma select_parents_shape:
  assumes "select_parents opt g r = Inr (parents, r1)"
  shows "\<exists>n extra. retain_length opt g = Inr n \<and> parents = slice_to n g @ extra \<and>
           mset extra \<subseteq># mset (slice_from n g) \<and>
           mset parents \<subseteq># mset g \<and> length parents \<le> length g \<and>
           r1 = sdrop (length (slice_from n g)) r"
proof -
  from assms obtain n where n: "retain_length opt g = Inr n"
    and sel: "select_random opt (slice_from n g) (slice_to n g) r = (parents, r1)"
    by (auto simp: select_parents_def split: sum.splits)
  from select_random_extra [OF sel] obtain extra where
    p: "parents = slice_to n g @ extra" and sub: "mset extra \<subseteq># mset (slice_from n g)"
    by blast
  have "mset parents = mset (slice_to n g) + mset extra"
    by (simp add: p)
  also have "\<dots> \<subseteq># mset (slice_to n g) + mset (slice_from n g)"
    using sub by simp
  also have "\<dots> = mset g"
    by (metis mset_append slice_append)
  finally have m: "mset parents \<subseteq># mset g" .
  then have "size (mset parents) \<le> size (mset g)"
    by (rule size_mset_mono)
  with n p sub m select_random_rand [OF sel] show ?thesis by auto
qed

lemma evolve_shape:
  assumes "evolve opt pop s = Some (Inr (res, s'))"
  shows "\<exists>g parents r1 children new.
           graded (heap s) pop = Inr g \<and>
           select_parents opt g (rand s) = Inr (parents, r1) \<and>
           res = parents @ children \<and>
           length res = length pop \<and>
           heap s' = heap s @ new \<and>
           (\<forall>c\<in>set children. length (heap s) \<le> c \<and> c < length (heap s'))"
proof -
  from assms obtain g where g: "graded (heap s) pop = Inr g"
    by (auto simp: evolve_def split: sum.splits)
  from assms g obtain parents r1 where sel: "select_parents opt g (rand s) = Inr (parents, r1)"
    by (auto simp: evolve_def split: sum.splits)
  let ?dl = "int (length pop) - int (length parents)"
  from assms g sel obtain children where
    run: "evolve_loop opt parents (int (length parents)) ?dl [] (s\<lparr>rand := r1\<rparr>) =
            Some (Inr (children, s'))"
    and res: "res = parents @ children"
    by (auto simp: evolve_def Let_def split: option.splits sum.splits)
  have "mset g = mset pop"
    using graded_Inr [OF g] by simp
  then have "length g = length pop"
    by (rule mset_eq_length)
  with select_parents_shape [OF sel] have dl: "0 \<le> ?dl"
    by auto
  from evolve_loop_children [OF run dl] obtain new where
    "int (length children) = ?dl" "heap s' = heap s @ new"
    "\<forall>c\<in>set children. length (heap s) \<le> c \<and> c < length (heap s')"
    by auto
  with g sel res show ?thesis
    by (intro exI [of _ g] exI [of _ parents] exI [of _ r1] exI [of _ children]
          exI [of _ new]) auto
qed

lemma evolve_returns:
  assumes g: "graded (heap s) pop = Inr g"
    and sel: "select_parents opt g (rand s) = Inr (parents, r1)"
    and p2: "2 \<le> length parents"
    and space: "nn_param_choices opt \<noteq> []"
    and doms: "\<forall>kv\<in>set (nn_param_choices opt). snd kv \<noteq> []"
    and valid: "\<forall>a\<in>set pop. a < length (heap s) \<and>
                  (\<forall>k\<in>param_keys opt. network (heap s ! a) k \<noteq> None)"
    and alt: "alternating (rand s)"
  shows "\<exists>res s'. evolve opt pop s = Some (Inr (res, s'))"
proof -
  have "mset g = mset pop"
    using graded_Inr [OF g] by simp
  then have "set g = set pop"
    by (rule mset_eq_setD)
  moreover have "set parents \<subseteq> set g"
  proof -
    from select_parents_shape [OF sel] have "mset parents \<subseteq># mset g"
      by blast
    then have "set_mset (mset parents) \<subseteq> set_mset (mset g)"
      by (rule set_mset_mono)
    then show ?thesis by simp
  qed
  ultimately have valid': "\<forall>a\<in>set parents. a < length (heap (s\<lparr>rand := r1\<rparr>)) \<and>
      (\<forall>k\<in>param_keys opt. network (heap (s\<lparr>rand := r1\<rparr>) ! a) k \<noteq> None)"
    using valid by auto
  from select_parents_shape [OF sel] obtain k where "r1 = sdrop k (rand s)"
    by blast
  with alt have alt': "alternating (rand (s\<lparr>rand := r1\<rparr>))"
    by (simp add: alternating_sdrop)
  from evolve_loop_returns [OF p2 space doms valid' alt',
      of "int (length pop) - int (length parents)" "[]"]
  obtain children s' where
    "evolve_loop opt parents (int (length parents)) (int (length pop) - int (length parents))
       [] (s\<lparr>rand := r1\<rparr>) = Some (Inr (children, s'))"
    by blast
  then have "evolve opt pop s = Some (Inr (parents @ children, s'))"
    by (simp add: evolve_def g sel)
  then show ?thesis by blast
qed

subsection \<open>The concrete inputs\<close>

lemmas example_defs =
  example_opt_def example_heap_def example_space_def
  genome_A_def genome_B_def genome_C_def genome_D_def

lemmas float_defs =
  float_of_nat_def float_mul_def float_div_def py_int_def
  round_double_def expo_def pow2_def round_half_even_def bit_length.simps

lemmas run_defs =
  evolve_def select_parents_def graded_def fitness_def get_loss_def retain_length_def
  slice_to_def slice_from_def random_random_def random_randint_def random_choice_def
  breed_def make_child_def mutate_def create_set_def float_defs

lemma alternating_flip_draws: "alternating flip_draws"
  unfolding alternating_def flip_draws_def
proof
  fix i :: nat
  have "Suc i mod 2 = Suc (i mod 2) \<or> i mod 2 = Suc (Suc i mod 2)"
    by arith
  then show "smap (\<lambda>i. 4503599627370496 + i mod 2) (siterate Suc 0) !! Suc i =
          Suc (smap (\<lambda>i. 4503599627370496 + i mod 2) (siterate Suc 0) !! i) \<or>
        smap (\<lambda>i. 4503599627370496 + i mod 2) (siterate Suc 0) !! i =
          Suc (smap (\<lambda>i. 4503599627370496 + i mod 2) (siterate Suc 0) !! Suc i)"
    by (auto simp del: snth.simps simp add: snth_smap)
qed

lemma example_graded: "graded example_heap [0, 1, 2, 3] = Inr [1, 2, 3, 0]"
  by (simp add: run_defs example_defs)

lemma example_retain_length: "retain_length example_opt [1, 2, 3, 0] = Inr 2"
  by (simp add: run_defs example_defs)

lemma example_parents:
  "select_parents example_opt [1, 2, 3, 0] flip_draws = Inr ([1, 2], stl (stl flip_draws))"
  by (simp add: select_parents_def example_retain_length)
     (simp add: run_defs example_defs flip_draws_def)

lemma example_run:
  "\<exists>s'. evolve example_opt [0, 1, 2, 3] \<lparr>heap = example_heap, rand = example_draws\<rparr> =
          Some (Inr ([1, 2, 4, 5], s')) \<and>
        network (heap s' ! 5) ''neurons'' = Some 16"
  by (simp add: evolve_def example_graded [simplified] select_parents_def
        example_retain_length [simplified])
     (simp add: run_defs example_defs example_draws_def evolve_loop.simps)

section \<open>Fitness and grading\<close>

text \<open>
  C9: \<^verbatim>\<open>fitness\<close> returns the cost stored in the genome, and fails with
  \<^verbatim>\<open>FitnessNotComputed\<close> on a genome that carries none. The failure is that of the
  attribute read of the class \<^verbatim>\<open>Network\<close>, which is modelled from the specification.
\<close>

theorem fitness_value:
  "fitness g = (case loss g of Some c \<Rightarrow> Inr c | None \<Rightarrow> Inl FitnessNotComputed)"
  by (simp add: fitness_def get_loss_def split: option.splits)

lemma reduce_add_foldl:
  "map (\<lambda>a. loss (h ! a)) as = map Some cs \<Longrightarrow>
   reduce_add h acc as = Inr (foldl float_add acc cs)"
proof (induction as arbitrary: acc cs)
  case Nil
  then show ?case by simp
next
  case (Cons a as)
  then obtain c cs' where cs: "cs = c # cs'" and c: "loss (h ! a) = Some c"
    and rest: "map (\<lambda>a. loss (h ! a)) as = map Some cs'"
    by (cases cs) auto
  from Cons.IH [OF rest] show ?case
    by (simp add: cs c fitness_def get_loss_def)
qed

lemma foldl_float_add_exact:
  "\<forall>n. 0 < n \<and> n \<le> length cs \<longrightarrow> is_double (c + sum_list (take n cs)) \<Longrightarrow>
   foldl float_add (Finite c) cs = Finite (c + sum_list cs)"
proof (induction cs arbitrary: c)
  case Nil
  then show ?case by simp
next
  case (Cons x xs)
  from Cons.prems have "is_double (c + sum_list (take 1 (x # xs)))"
    by (metis One_nat_def length_Cons less_Suc_eq_le zero_less_one le_add1 plus_1_eq_Suc)
  then have first: "round_double (c + x) = Finite (c + x)"
    by (simp add: is_double_def)
  have "\<forall>n. 0 < n \<and> n \<le> length xs \<longrightarrow> is_double ((c + x) + sum_list (take n xs))"
  proof (intro allI impI)
    fix n
    assume "0 < n \<and> n \<le> length xs"
    then have "0 < Suc n \<and> Suc n \<le> length (x # xs)" by simp
    with Cons.prems have "is_double (c + sum_list (take (Suc n) (x # xs)))"
      by blast
    then show "is_double ((c + x) + sum_list (take n xs))"
      by (simp add: add.assoc)
  qed
  from Cons.IH [OF this] show ?case
    by (simp add: first add.assoc)
qed

text \<open>
  C3, as the code has it: on a non-empty population whose genomes all carry a cost,
  \<^verbatim>\<open>grade\<close> returns the costs added from the left in double arithmetic and divided by
  the size of the population in double arithmetic. This is the arithmetic mean when no
  partial sum and not the quotient is rounded, and on a population of one genome it is
  the fitness of that genome.
\<close>

theorem grade_mean:
  assumes "pop \<noteq> []" and "map (\<lambda>a. loss (h ! a)) pop = map Some cs"
  shows "grade h pop = float_div (foldl float_add (Finite (hd cs)) (tl cs)) (length pop) \<and>
         (length pop < 2 ^ 53 \<and>
          (\<forall>n. 0 < n \<and> n \<le> length cs \<longrightarrow> is_double (sum_list (take n cs))) \<and>
          is_double (sum_list cs / real (length pop)) \<longrightarrow>
          grade h pop = Inr (Finite (sum_list cs / real (length pop)))) \<and>
         (length pop = 1 \<and> is_double (hd cs) \<longrightarrow>
          grade h pop = Inr (Finite (hd cs)) \<and> fitness (h ! hd pop) = Inr (hd cs))"
proof -
  from assms obtain a as c cs' where pop: "pop = a # as" and cs: "cs = c # cs'"
    and c: "loss (h ! a) = Some c" and rest: "map (\<lambda>a. loss (h ! a)) as = map Some cs'"
    by (cases pop; cases cs) auto
  from rest have len: "length cs' = length as"
    by (metis length_map)
  have g: "grade h pop = float_div (foldl float_add (Finite c) cs') (length pop)"
    by (simp add: grade_def pop c fitness_def get_loss_def reduce_add_foldl [OF rest])
  have mean: "grade h pop = Inr (Finite (sum_list cs / real (length pop)))"
    if small: "length pop < 2 ^ 53"
      and sums: "\<forall>n. 0 < n \<and> n \<le> length cs \<longrightarrow> is_double (sum_list (take n cs))"
      and quot: "is_double (sum_list cs / real (length pop))"
  proof -
    have "\<forall>n. 0 < n \<and> n \<le> length cs' \<longrightarrow> is_double (c + sum_list (take n cs'))"
    proof (intro allI impI)
      fix n
      assume "0 < n \<and> n \<le> length cs'"
      then have "0 < Suc n \<and> Suc n \<le> length cs" by (simp add: cs)
      with sums have "is_double (sum_list (take (Suc n) cs))" by blast
      then show "is_double (c + sum_list (take n cs'))" by (simp add: cs)
    qed
    then have "foldl float_add (Finite c) cs' = Finite (sum_list cs)"
      by (simp add: foldl_float_add_exact cs)
    moreover have "real (length pop) \<noteq> 0"
      by (simp add: pop)
    ultimately show ?thesis
      using quot by (simp add: g float_div_def float_of_nat_exact [OF small] is_double_def)
  qed
  have single: "grade h pop = Inr (Finite (hd cs)) \<and> fitness (h ! hd pop) = Inr (hd cs)"
    if one: "length pop = 1" and d: "is_double (hd cs)"
  proof -
    from one have as: "as = []" by (simp add: pop)
    with len have cs': "cs' = []" by simp
    have "float_of_nat (Suc 0) = Inr (real (Suc 0))"
      by (rule float_of_nat_exact) simp
    then have "float_div (Finite c) (Suc 0) = Inr (Finite c)"
      using d by (simp add: float_div_def is_double_def cs)
    with g show ?thesis
      by (simp add: pop as cs cs' c fitness_def get_loss_def)
  qed
  from g mean single show ?thesis
    by (simp add: cs)
qed

theorem grade_mean_witness:
  "grade [genome_A, genome_B] [0, 1] = Inr (Finite (9 / 16)) \<and>
   grade [genome_A, genome_B] [1] = Inr (Finite (1 / 4)) \<and>
   fitness genome_B = Inr (1 / 4)"
proof -
  let ?h = "[genome_A, genome_B]"
  have h2: "map (\<lambda>a. loss (?h ! a)) [0, 1] = map Some [7 / 8, 1 / 4]"
    by (simp add: genome_A_def genome_B_def)
  have h1: "map (\<lambda>a. loss (?h ! a)) [1] = map Some [1 / 4]"
    by (simp add: genome_B_def)
  have d1: "is_double (7 / 8)" and d2: "is_double (9 / 8)" and d3: "is_double (9 / 16)"
    and d4: "is_double (1 / 4)"
    by (simp_all add: is_double_def float_defs)
  have sums: "\<forall>n. 0 < n \<and> n \<le> length [7 / 8, 1 / 4 :: real] \<longrightarrow>
                is_double (sum_list (take n [7 / 8, 1 / 4]))"
  proof (intro allI impI)
    fix n :: nat
    assume "0 < n \<and> n \<le> length [7 / 8, 1 / 4 :: real]"
    then have "n = 1 \<or> n = 2" by auto
    then show "is_double (sum_list (take n [7 / 8, 1 / 4]))"
      using d1 d2 by auto
  qed
  have pre: "length [0 :: addr, 1] < 2 ^ 53 \<and>
      (\<forall>n. 0 < n \<and> n \<le> length [7 / 8, 1 / 4 :: real] \<longrightarrow>
         is_double (sum_list (take n [7 / 8, 1 / 4]))) \<and>
      is_double (sum_list [7 / 8, 1 / 4] / real (length [0 :: addr, 1]))"
    using sums d3 by simp
  have ne2: "[0 :: addr, 1] \<noteq> []" and ne1: "[1 :: addr] \<noteq> []"
    by simp_all
  from grade_mean [OF ne2 h2] pre
  have "grade ?h [0, 1] = Inr (Finite (sum_list [7 / 8, 1 / 4] / real (length [0 :: addr, 1])))"
    by blast
  then have two: "grade ?h [0, 1] = Inr (Finite (9 / 16))"
    by simp
  have "length [1 :: addr] = 1 \<and> is_double (hd [1 / 4])"
    using d4 by simp
  with grade_mean [OF ne1 h1]
  have "grade ?h [1] = Inr (Finite (hd [1 / 4])) \<and> fitness (?h ! hd [1]) = Inr (hd [1 / 4])"
    by blast
  then have "grade ?h [1] = Inr (Finite (1 / 4)) \<and> fitness genome_B = Inr (1 / 4)"
    by simp
  with two show ?thesis
    by blast
qed

text \<open>
  C3 as stated fails: the costs 0.1, 0.2 and 0.3 are added to 0.6000000000000001 and
  \<^verbatim>\<open>grade\<close> returns 0.20000000000000004, which is not the mean of the three costs.
\<close>

theorem grade_rounded_counterexample:
  "grade tenths_heap [0, 1, 2] = Inr (Finite (7205759403792795 / 36028797018963968)) \<and>
   (3602879701896397 / 36028797018963968 + 3602879701896397 / 18014398509481984 +
      5404319552844595 / 18014398509481984) / 3 \<noteq> (7205759403792795 / 36028797018963968 :: real)"
  by (simp add: grade_def fitness_def get_loss_def tenths_heap_def float_defs)

text \<open>
  C4, as the code has it: \<^verbatim>\<open>grade\<close> of the empty population fails in \<^verbatim>\<open>reduce\<close>, which
  raises \<^verbatim>\<open>TypeError\<close> on an empty iterable without an initial value; the division is
  never reached.
\<close>

theorem grade_empty: "grade h [] = Inl TypeError"
  by (simp add: grade_def)

text \<open>C4 as stated fails: the error of the empty population is not \<^verbatim>\<open>EmptyPopulation\<close>.\<close>

theorem grade_empty_counterexample:
  "grade ([] :: (string, int) Network list) [] \<noteq> Inl EmptyPopulation"
  by (simp add: grade_def)

section \<open>Mutation\<close>

text \<open>
  C6, as the code has it: with a non-empty parameter space whose lists of values are not
  empty, \<^verbatim>\<open>mutate\<close> assigns exactly one key of the parameter space a value admissible
  for that key, and leaves every other key, the cost and every other object as they
  were. The value drawn may be the one already there, so at most one value changes.
\<close>

theorem mutate_frame:
  assumes "nn_param_choices opt \<noteq> []"
    and "\<forall>kv\<in>set (nn_param_choices opt). snd kv \<noteq> []"
    and "a < length (heap s)"
  shows "\<exists>k v s'. mutate opt a s = Inr (a, s') \<and>
           k \<in> param_keys opt \<and> admissible opt k v \<and>
           network (heap s' ! a) k = Some v \<and>
           (\<forall>k'. k' \<noteq> k \<longrightarrow> network (heap s' ! a) k' = network (heap s ! a) k') \<and>
           loss (heap s' ! a) = loss (heap s ! a) \<and>
           length (heap s') = length (heap s) \<and>
           (\<forall>b. b \<noteq> a \<longrightarrow> heap s' ! b = heap s ! b)"
proof -
  from mutate_ok [OF assms(1,2), of a s] obtain k vs v where
    run: "mutate opt a s =
            Inr (a, \<lparr>heap = (heap s)[a := (heap s ! a)
                       \<lparr>network := (network (heap s ! a))(k \<mapsto> v)\<rparr>],
                     rand = stl (stl (rand s))\<rparr>)"
    and k: "k \<in> param_keys opt"
    and vs: "map_of (nn_param_choices opt) k = Some vs" and v: "v \<in> set vs"
    by blast
  have "admissible opt k v"
    using vs v by (simp add: admissible_def)
  with run k assms(3) show ?thesis
    by (intro exI [of _ k] exI [of _ v]) auto
qed

theorem mutate_frame_witness:
  "\<exists>s'. mutate example_opt 0 \<lparr>heap = [genome_A], rand = 0 ## 1 ## sconst 0\<rparr> = Inr (0, s') \<and>
         network (heap s' ! 0) ''layers'' = Some 2 \<and>
         network (heap s' ! 0) ''neurons'' = network genome_A ''neurons''"
proof -
  have h1: "nn_param_choices example_opt \<noteq> []"
    by (simp add: example_defs)
  have h2: "\<forall>kv\<in>set (nn_param_choices example_opt). snd kv \<noteq> []"
    by (simp add: example_defs)
  have h3: "0 < length (heap \<lparr>heap = [genome_A], rand = 0 ## 1 ## sconst 0\<rparr>)"
    by simp
  from mutate_frame [OF h1 h2 h3] show ?thesis
    by (simp add: run_defs example_defs)
qed

text \<open>
  C6 as stated fails: the draw may pick the value the key already has. Here the
  key drawn is \<^verbatim>\<open>layers\<close> and the value drawn is 1, the value of \<^verbatim>\<open>layers\<close> in genome A:
  the store after the call is the store before it, no value has changed.
\<close>

theorem mutate_same_value_counterexample:
  "mutate example_opt 0 \<lparr>heap = [genome_A], rand = 0 ## 0 ## sconst 7\<rparr> =
     Inr (0, \<lparr>heap = [genome_A], rand = sconst 7\<rparr>)"
  by (simp add: run_defs example_defs, rule ext, simp)

section \<open>Crossover\<close>

text \<open>
  C5, as the code has it: for parents that cover every key of a non-empty parameter
  space with non-empty lists of values, \<^verbatim>\<open>breed\<close> returns exactly two children, both new
  objects. For each child one \<^verbatim>\<open>random.random()\<close> is drawn. When the draw is below
  \<^verbatim>\<open>mutate_chance\<close> the child is mutated: one key holds a value admissible for that key
  and every other key holds the value of one of the parents. When the draw is not below
  \<^verbatim>\<open>mutate_chance\<close>, every key holds the value of one of the parents.
\<close>

theorem breed_children:
  assumes "nn_param_choices opt \<noteq> []"
    and "\<forall>kv\<in>set (nn_param_choices opt). snd kv \<noteq> []"
    and "mother < length (heap s)" and "father < length (heap s)"
    and "\<forall>k\<in>param_keys opt. network (heap s ! mother) k \<noteq> None \<and>
           network (heap s ! father) k \<noteq> None"
    and "r1 = sdrop (child_draws opt (rand s)) (rand s)"
    and "r2 = sdrop (child_draws opt r1) r1"
  shows "\<exists>g1 g2. breed opt mother father s =
            Inr ([length (heap s), Suc (length (heap s))],
                 \<lparr>heap = heap s @ [g1, g2], rand = r2\<rparr>) \<and>
          (\<forall>(u, g)\<in>{(mutation_draw opt (rand s), g1), (mutation_draw opt r1, g2)}.
             (mutate_chance opt > u \<longrightarrow>
                (\<exists>mk\<in>param_keys opt.
                   (\<exists>v. network g mk = Some v \<and> admissible opt mk v) \<and>
                   (\<forall>k\<in>param_keys opt. k \<noteq> mk \<longrightarrow>
                      from_parents (heap s ! mother) (heap s ! father) g k))) \<and>
             (\<not> mutate_chance opt > u \<longrightarrow>
                (\<forall>k\<in>param_keys opt.
                   from_parents (heap s ! mother) (heap s ! father) g k)))"
proof -
  from breed_ok [OF assms] obtain g1 g2 where
    "breed opt mother father s =
       Inr ([length (heap s), Suc (length (heap s))], \<lparr>heap = heap s @ [g1, g2], rand = r2\<rparr>)"
    and "bred opt (mutation_draw opt (rand s)) (heap s ! mother) (heap s ! father) g1"
    and "bred opt (mutation_draw opt r1) (heap s ! mother) (heap s ! father) g2"
    by blast
  then show ?thesis
    unfolding bred_def by (intro exI [of _ g1] exI [of _ g2]) simp
qed

text \<open>
  A run in which the first child is mutated (at \<^verbatim>\<open>layers\<close>, so that \<^verbatim>\<open>neurons\<close> is a
  parent's) and the second is not (its draw is one half).
\<close>

theorem breed_children_witness:
  "\<exists>g1 g2. breed example_opt 0 1
       \<lparr>heap = [genome_A, genome_B],
          rand = 0 ## 0 ## 0 ## 0 ## 1 ## 0 ## 0 ## 4503599627370496 ## sconst 0\<rparr> =
       Inr ([2, 3], \<lparr>heap = [genome_A, genome_B, g1, g2], rand = sconst 0\<rparr>) \<and>
     (\<exists>mk\<in>param_keys example_opt.
        \<forall>k\<in>param_keys example_opt. k \<noteq> mk \<longrightarrow> from_parents genome_A genome_B g1 k) \<and>
     (\<forall>k\<in>param_keys example_opt. from_parents genome_A genome_B g2 k)"
proof -
  let ?r = "0 ## 0 ## 0 ## 0 ## 1 ## 0 ## 0 ## 4503599627370496 ## sconst 0"
  let ?s = "\<lparr>heap = [genome_A, genome_B], rand = ?r\<rparr>"
  let ?r1 = "0 ## 0 ## 4503599627370496 ## sconst 0"
  have len: "length (nn_param_choices example_opt) = Suc (Suc 0)"
    by (simp add: example_defs)
  have u1: "mutation_draw example_opt ?r = 0"
    by (simp add: mutation_draw_def len random_random_def)
  have u2: "mutation_draw example_opt ?r1 = 1 / 2"
    by (simp add: mutation_draw_def len random_random_def)
  have mc: "mutate_chance example_opt = 1 / 4"
    by (simp add: example_defs)
  have h1: "nn_param_choices example_opt \<noteq> []"
    by (simp add: example_defs)
  have h2: "\<forall>kv\<in>set (nn_param_choices example_opt). snd kv \<noteq> []"
    by (simp add: example_defs)
  have h3: "0 < length (heap ?s)" and h4: "1 < length (heap ?s)"
    by simp_all
  have h5: "\<forall>k\<in>param_keys example_opt. network (heap ?s ! 0) k \<noteq> None \<and>
              network (heap ?s ! 1) k \<noteq> None"
    by (simp add: param_keys_def example_defs)
  have "child_draws example_opt ?r = Suc (Suc (Suc (Suc (Suc 0))))"
    using u1 mc by (simp add: child_draws_def len)
  then have h6: "?r1 = sdrop (child_draws example_opt (rand ?s)) (rand ?s)"
    by simp
  have "child_draws example_opt ?r1 = Suc (Suc (Suc 0))"
    using u2 mc by (simp add: child_draws_def len)
  then have h7: "sconst 0 = sdrop (child_draws example_opt ?r1) ?r1"
    by simp
  from breed_children [OF h1 h2 h3 h4 h5 h6 h7] obtain g1 g2 where
    run: "breed example_opt 0 1 ?s =
       Inr ([length (heap ?s), Suc (length (heap ?s))],
            \<lparr>heap = heap ?s @ [g1, g2], rand = sconst 0\<rparr>)"
    and both: "\<forall>(u, g)\<in>{(mutation_draw example_opt (rand ?s), g1),
                         (mutation_draw example_opt ?r1, g2)}.
       (mutate_chance example_opt > u \<longrightarrow>
          (\<exists>mk\<in>param_keys example_opt.
             (\<exists>v. network g mk = Some v \<and> admissible example_opt mk v) \<and>
             (\<forall>k\<in>param_keys example_opt. k \<noteq> mk \<longrightarrow>
                from_parents (heap ?s ! 0) (heap ?s ! 1) g k))) \<and>
       (\<not> mutate_chance example_opt > u \<longrightarrow>
          (\<forall>k\<in>param_keys example_opt. from_parents (heap ?s ! 0) (heap ?s ! 1) g k))"
    by blast
  from both have c1: "mutate_chance example_opt > mutation_draw example_opt (rand ?s) \<longrightarrow>
       (\<exists>mk\<in>param_keys example_opt.
           (\<exists>v. network g1 mk = Some v \<and> admissible example_opt mk v) \<and>
           (\<forall>k\<in>param_keys example_opt. k \<noteq> mk \<longrightarrow>
              from_parents (heap ?s ! 0) (heap ?s ! 1) g1 k))"
    by (simp only: ball_simps prod.case) blast
  from both have c2: "\<not> mutate_chance example_opt > mutation_draw example_opt ?r1 \<longrightarrow>
       (\<forall>k\<in>param_keys example_opt. from_parents (heap ?s ! 0) (heap ?s ! 1) g2 k)"
    by (simp only: ball_simps prod.case) blast
  have below: "mutate_chance example_opt > mutation_draw example_opt (rand ?s)"
    using u1 mc by simp
  have above: "\<not> mutate_chance example_opt > mutation_draw example_opt ?r1"
    using u2 mc by simp
  from c1 below have "\<exists>mk\<in>param_keys example_opt.
      \<forall>k\<in>param_keys example_opt. k \<noteq> mk \<longrightarrow>
        from_parents (heap ?s ! 0) (heap ?s ! 1) g1 k"
    by blast
  then have "\<exists>mk\<in>param_keys example_opt.
      \<forall>k\<in>param_keys example_opt. k \<noteq> mk \<longrightarrow> from_parents genome_A genome_B g1 k"
    by simp
  moreover from c2 above
  have "\<forall>k\<in>param_keys example_opt. from_parents (heap ?s ! 0) (heap ?s ! 1) g2 k"
    by blast
  then have "\<forall>k\<in>param_keys example_opt. from_parents genome_A genome_B g2 k"
    by simp
  ultimately show ?thesis
    using run by (intro exI [of _ g1] exI [of _ g2]) simp
qed

text \<open>
  C5 as stated fails when a child is mutated: with parents A (\<^verbatim>\<open>layers\<close> 1) and B
  (\<^verbatim>\<open>layers\<close> 3), the first child takes \<^verbatim>\<open>layers\<close> from A, the draw 0 is below
  \<^verbatim>\<open>mutate_chance\<close>, and \<^verbatim>\<open>mutate\<close> writes the admissible value 2 at \<^verbatim>\<open>layers\<close>: a value
  of neither parent.
\<close>

theorem breed_mutated_counterexample:
  "(case breed example_opt 0 1
           \<lparr>heap = [genome_A, genome_B], rand = 0 ## 0 ## 0 ## 0 ## 1 ## sconst 0\<rparr> of
      Inl e \<Rightarrow> None
    | Inr (children, s') \<Rightarrow> Some (map (\<lambda>c. network (heap s' ! c) ''layers'') children))
     = Some [Some 2, Some 1] \<and>
   network genome_A ''layers'' = Some 1 \<and> network genome_B ''layers'' = Some 3"
  by (simp add: run_defs example_defs)

section \<open>Selection\<close>

lemma fitness_all_Inr:
  "map (\<lambda>a. fitness (h ! a)) pop = map Inr cs \<Longrightarrow> \<forall>a\<in>set pop. \<exists>c. fitness (h ! a) = Inr c"
  by (induction pop arbitrary: cs) auto

lemma example_fitness:
  "map (\<lambda>a. fitness (example_heap ! a)) [0, 1, 2, 3] = map Inr [7 / 8, 1 / 4, 1 / 2, 3 / 4]"
  by (simp add: fitness_def get_loss_def example_defs)

text \<open>
  C8, as the code has it: \<^verbatim>\<open>evolve\<close> ranks the population in ascending order of
  fitness, a permutation of the population. For a retain rate in \<open>[0, 1]\<close>,
  \<^verbatim>\<open>retain_length\<close> is the integer part of the product \<^verbatim>\<open>N * retain\<close> rounded to a
  double, which is \<open>\<lfloor>N * retain\<rfloor>\<close> or one more. The elite \<^verbatim>\<open>graded[:retain_length]\<close> is
  the first \<^verbatim>\<open>retain_length\<close> genomes of the ranking, none of them costs more than a
  genome outside of it, whatever the draws it is the head of the parents, and it is the
  head of the population that \<^verbatim>\<open>evolve\<close> returns.
\<close>

theorem selection_elite:
  assumes "0 \<le> retain opt" and "retain opt \<le> 1"
    and "\<forall>a\<in>set pop. \<exists>c. fitness (h ! a) = Inr c"
    and "length pop < 2 ^ 53"
  shows "\<exists>g cs x. graded h pop = Inr g \<and> mset g = mset pop \<and>
           map (\<lambda>a. fitness (h ! a)) g = map Inr cs \<and> sorted cs \<and>
           round_double (real (length pop) * retain opt) = Finite x \<and>
           retain_length opt g = Inr \<lfloor>x\<rfloor> \<and>
           \<lfloor>real (length pop) * retain opt\<rfloor> \<le> \<lfloor>x\<rfloor> \<and>
           \<lfloor>x\<rfloor> \<le> \<lfloor>real (length pop) * retain opt\<rfloor> + 1 \<and>
           slice_to \<lfloor>x\<rfloor> g = take (nat \<lfloor>x\<rfloor>) g \<and>
           length (slice_to \<lfloor>x\<rfloor> g) = nat \<lfloor>x\<rfloor> \<and>
           (\<forall>i<nat \<lfloor>x\<rfloor>. \<forall>j<length g. nat \<lfloor>x\<rfloor> \<le> j \<longrightarrow> cs ! i \<le> cs ! j) \<and>
           (\<forall>r. \<exists>extra r1. select_parents opt g r = Inr (slice_to \<lfloor>x\<rfloor> g @ extra, r1)) \<and>
           (\<forall>s res s'. heap s = h \<longrightarrow> evolve opt pop s = Some (Inr (res, s')) \<longrightarrow>
              take (nat \<lfloor>x\<rfloor>) res = slice_to \<lfloor>x\<rfloor> g)"
proof -
  from graded_ok [OF assms(3)] obtain g where g: "graded h pop = Inr g"
    by blast
  from graded_Inr [OF g] obtain cs where m: "mset g = mset pop"
    and cs: "map (\<lambda>a. fitness (h ! a)) g = map Inr cs" and sorted: "sorted cs"
    by blast
  from m have lg: "length g = length pop"
    by (rule mset_eq_length)
  from cs have lcs: "length cs = length g"
    by (metis length_map)
  let ?p = "real (length pop) * retain opt"
  from assms(4) have "length g < 2 ^ 53"
    by (simp add: lg)
  from retain_length_between [OF assms(1,2) this] obtain x :: real where
    x: "round_double ?p = Finite x" and rl: "retain_length opt g = Inr \<lfloor>x\<rfloor>"
    and lower: "\<lfloor>?p\<rfloor> \<le> \<lfloor>x\<rfloor>" and upper: "\<lfloor>x\<rfloor> \<le> \<lceil>?p\<rceil>"
    and rl0: "0 \<le> \<lfloor>x\<rfloor>" and rlN: "\<lfloor>x\<rfloor> \<le> int (length g)"
    unfolding lg by blast
  have "\<lceil>?p\<rceil> \<le> \<lfloor>?p\<rfloor> + 1"
    by (simp add: ceiling_le_iff)
  with upper have upper': "\<lfloor>x\<rfloor> \<le> \<lfloor>?p\<rfloor> + 1"
    by linarith
  have slice: "slice_to \<lfloor>x\<rfloor> g = take (nat \<lfloor>x\<rfloor>) g"
    using rl0 by (simp add: slice_to_def)
  have len: "length (slice_to \<lfloor>x\<rfloor> g) = nat \<lfloor>x\<rfloor>"
    using rlN rl0 by (simp add: slice)
  have order: "\<forall>i<nat \<lfloor>x\<rfloor>. \<forall>j<length g. nat \<lfloor>x\<rfloor> \<le> j \<longrightarrow> cs ! i \<le> cs ! j"
    using sorted lcs by (auto intro: sorted_nth_mono)
  have head: "\<exists>extra r1. select_parents opt g r = Inr (slice_to \<lfloor>x\<rfloor> g @ extra, r1)" for r
  proof -
    obtain parents r1 where
      sel: "select_parents opt g r = Inr (parents, r1)"
      by (cases "select_random opt (slice_from \<lfloor>x\<rfloor> g) (slice_to \<lfloor>x\<rfloor> g) r")
         (simp add: select_parents_def rl)
    from select_parents_shape [OF sel] rl obtain extra where
      "parents = slice_to \<lfloor>x\<rfloor> g @ extra"
      by auto
    with sel show ?thesis by blast
  qed
  have result: "take (nat \<lfloor>x\<rfloor>) res = slice_to \<lfloor>x\<rfloor> g"
    if "heap s = h" and run: "evolve opt pop s = Some (Inr (res, s'))" for s res s'
  proof -
    from evolve_shape [OF run] that(1) g obtain parents r1 children where
      sel: "select_parents opt g (rand s) = Inr (parents, r1)" and res: "res = parents @ children"
      by auto
    from select_parents_shape [OF sel] rl obtain extra where
      "parents = slice_to \<lfloor>x\<rfloor> g @ extra"
      by auto
    then show ?thesis
      using len by (simp add: res)
  qed
  from g m cs sorted x rl lower upper' slice len order head result show ?thesis
    by blast
qed

theorem selection_elite_witness:
  "\<exists>cs. graded example_heap [0, 1, 2, 3] = Inr [1, 2, 3, 0] \<and>
     map (\<lambda>a. fitness (example_heap ! a)) [1, 2, 3, 0] = map Inr cs \<and> sorted cs \<and>
     retain_length example_opt [1, 2, 3, 0] = Inr 2 \<and>
     slice_to 2 [1, 2, 3, 0 :: addr] = [1, 2]"
proof -
  have h1: "0 \<le> retain example_opt" and h2: "retain example_opt \<le> 1"
    by (simp_all add: example_defs)
  have h3: "\<forall>a\<in>set [0, 1, 2, 3]. \<exists>c. fitness (example_heap ! a) = Inr c"
    using example_fitness by (rule fitness_all_Inr)
  have h4: "length [0 :: addr, 1, 2, 3] < 2 ^ 53"
    by simp
  from selection_elite [OF h1 h2 h3 h4] obtain g cs and x :: real where
    g: "graded example_heap [0, 1, 2, 3] = Inr g"
    and cs: "map (\<lambda>a. fitness (example_heap ! a)) g = map Inr cs" "sorted cs"
    and rl: "retain_length example_opt g = Inr \<lfloor>x\<rfloor>"
    and sl: "slice_to \<lfloor>x\<rfloor> g = take (nat \<lfloor>x\<rfloor>) g"
    by blast
  from g example_graded have geq: "g = [1, 2, 3, 0]"
    by simp
  from rl example_retain_length have "\<lfloor>x\<rfloor> = 2"
    by (simp add: geq)
  with g cs rl sl show ?thesis
    by (intro exI [of _ cs]) (simp add: geq)
qed

text \<open>
  C8 as stated fails: for ten genomes and \<^verbatim>\<open>retain = 0.7\<close> the product of the code is
  rounded to 7.0 and seven genomes are kept, while \<open>\<lfloor>N * retain\<rfloor>\<close> is 6 (the double 0.7 is
  just below seven tenths).
\<close>

theorem retain_length_counterexample:
  "retain_length (example_opt\<lparr>retain := seven_tenths\<rparr>) [0, 1, 2, 3, 4, 5, 6, 7, 8, 9] = Inr 7 \<and>
   \<lfloor>real (length [0 :: addr, 1, 2, 3, 4, 5, 6, 7, 8, 9]) * seven_tenths\<rfloor> = 6"
  by (simp add: retain_length_def seven_tenths_def float_defs)

text \<open>
  C7: with \<^verbatim>\<open>retain\<close> equal to 1 (and \<^verbatim>\<open>random_select\<close> equal to 0) \<^verbatim>\<open>evolve\<close> returns
  the genomes of the population, the same objects with the same multiplicities, in
  ascending order of fitness. The store and the random source are returned as they were:
  nothing was bred, nothing mutated, nothing drawn. The population has fewer than
  \<open>2\<^sup>5\<^sup>3\<close> genomes, so that its length is a double.
\<close>

theorem evolve_retain_all:
  assumes "retain opt = 1" and "random_select opt = 0"
    and "\<forall>a\<in>set pop. \<exists>c. fitness (heap s ! a) = Inr c"
    and "length pop < 2 ^ 53"
  shows "\<exists>g cs. evolve opt pop s = Some (Inr (g, s)) \<and> mset g = mset pop \<and>
           map (\<lambda>a. fitness (heap s ! a)) g = map Inr cs \<and> sorted cs"
proof -
  from graded_ok [OF assms(3)] obtain g where g: "graded (heap s) pop = Inr g"
    by blast
  from graded_Inr [OF g] obtain cs where m: "mset g = mset pop"
    and cs: "map (\<lambda>a. fitness (heap s ! a)) g = map Inr cs" and sorted: "sorted cs"
    by blast
  from m have lg: "length g = length pop"
    by (rule mset_eq_length)
  with assms(4) have "length g < 2 ^ 53"
    by simp
  then have rl: "retain_length opt g = Inr (int (length g))"
    by (rule retain_length_all [OF assms(1)])
  have sel: "select_parents opt g (rand s) = Inr (g, rand s)"
    by (simp add: select_parents_def rl slice_to_def slice_from_def)
  have "evolve_loop opt g (int (length g)) 0 [] s = Some (Inr ([], s))"
    by (subst evolve_loop.simps) simp
  then have "evolve opt pop s = Some (Inr (g, s))"
    by (simp add: evolve_def g sel lg)
  with m cs sorted show ?thesis
    by blast
qed

theorem evolve_retain_all_witness:
  "\<exists>cs. evolve (example_opt\<lparr>retain := 1, random_select := 0\<rparr>) [0, 1, 2, 3]
          \<lparr>heap = example_heap, rand = example_draws\<rparr> =
        Some (Inr ([1, 2, 3, 0], \<lparr>heap = example_heap, rand = example_draws\<rparr>)) \<and>
     map (\<lambda>a. fitness (example_heap ! a)) [1, 2, 3, 0] = map Inr cs \<and> sorted cs"
proof -
  let ?opt = "example_opt\<lparr>retain := 1, random_select := 0\<rparr>"
  let ?s = "\<lparr>heap = example_heap, rand = example_draws\<rparr>"
  have h1: "retain ?opt = 1" and h2: "random_select ?opt = 0"
    by simp_all
  have h3: "\<forall>a\<in>set [0, 1, 2, 3]. \<exists>c. fitness (heap ?s ! a) = Inr c"
    using fitness_all_Inr [OF example_fitness] by simp
  have h4: "length [0 :: addr, 1, 2, 3] < 2 ^ 53"
    by simp
  from evolve_retain_all [OF h1 h2 h3 h4] obtain g cs where
    run: "evolve ?opt [0, 1, 2, 3] ?s = Some (Inr (g, ?s))"
    and cs: "map (\<lambda>a. fitness (heap ?s ! a)) g = map Inr cs" "sorted cs"
    by blast
  have "retain_length ?opt [1, 2, 3, 0] = Inr 4"
    using retain_length_all [of ?opt "[1, 2, 3, 0]"] by simp
  then have "select_parents ?opt [1, 2, 3, 0] example_draws = Inr ([1, 2, 3, 0], example_draws)"
    by (simp add: select_parents_def slice_to_def slice_from_def)
  then have "evolve ?opt [0, 1, 2, 3] ?s = Some (Inr ([1, 2, 3, 0], ?s))"
    using example_graded by (simp add: evolve_def evolve_loop.simps)
  with run have "g = [1, 2, 3, 0]"
    by simp
  with run cs show ?thesis
    by (intro exI [of _ cs]) simp
qed

section \<open>Generational replacement\<close>

lemma evolve_one_parent:
  assumes "graded (heap s) pop = Inr g"
    and "select_parents opt g (rand s) = Inr (parents, r1)"
    and "length parents = 1" and "1 < length pop"
  shows "evolve opt pop s = None"
proof -
  have "evolve_loop opt parents 1 (int (length pop) - 1) [] (s\<lparr>rand := r1\<rparr>) = None"
    using assms(4) by (intro evolve_loop_one_parent) simp
  then show ?thesis
    by (simp add: evolve_def assms(1,2,3))
qed

lemma evolve_no_parent:
  assumes "graded (heap s) pop = Inr g"
    and "select_parents opt g (rand s) = Inr (parents, r1)"
    and "length parents = 0" and "0 < length pop"
  shows "evolve opt pop s = Some (Inl ValueError)"
proof -
  have "evolve_loop opt parents 0 (int (length pop)) [] (s\<lparr>rand := r1\<rparr>) =
          Some (Inl ValueError)"
    using assms(4) by (intro evolve_loop_no_parent) simp
  then show ?thesis
    using assms(3) by (simp add: evolve_def assms(1,2))
qed

text \<open>
  C1 requires \<^verbatim>\<open>evolve\<close> to notice, before the breeding loop, that fewer than two
  parents were selected while children are required, and to fail with
  \<^verbatim>\<open>InsufficientParents\<close>. The code has no check of the number of parents. With
  the two genomes A and B, \<^verbatim>\<open>retain = 0.5\<close> and \<^verbatim>\<open>random_select = 0\<close>, the only parent is
  B and one child is required; both indices drawn are 0 in every round, so the loop is
  never left: whatever the random source, the run neither returns nor raises.
\<close>

theorem evolve_one_parent_never_returns:
  "evolve (example_opt\<lparr>random_select := 0\<rparr>) [0, 1]
     \<lparr>heap = [genome_A, genome_B], rand = r\<rparr> = None"
proof -
  let ?opt = "example_opt\<lparr>random_select := 0\<rparr>"
  let ?s = "\<lparr>heap = [genome_A, genome_B], rand = r\<rparr>"
  have g: "graded (heap ?s) [0, 1] = Inr [1, 0]"
    by (simp add: run_defs example_defs)
  have "retain_length ?opt [1, 0] = Inr 1"
    by (simp add: run_defs example_defs)
  then have sel: "select_parents ?opt [1, 0] (rand ?s) = Inr ([1], stl r)"
    by (simp add: select_parents_def)
       (simp add: slice_to_def slice_from_def random_random_def example_defs)
  show ?thesis
    by (rule evolve_one_parent [OF g sel]) simp_all
qed

text \<open>
  C2: when at least two parents are selected, every run of \<^verbatim>\<open>evolve\<close> that returns,
  returns a population of the length of the input. A run need not return (a source that
  draws the same index for ever never breeds); it does return, with that length,
  whenever the genomes cover a well-formed parameter space and successive draws differ
  by one.
\<close>

theorem evolve_length:
  assumes "graded (heap s) pop = Inr g"
    and "select_parents opt g (rand s) = Inr (parents, r1)"
    and "2 \<le> length parents"
  shows "(\<forall>res s'. evolve opt pop s = Some (Inr (res, s')) \<longrightarrow> length res = length pop) \<and>
         (nn_param_choices opt \<noteq> [] \<and>
          (\<forall>kv\<in>set (nn_param_choices opt). snd kv \<noteq> []) \<and>
          (\<forall>a\<in>set pop. a < length (heap s) \<and>
             (\<forall>k\<in>param_keys opt. network (heap s ! a) k \<noteq> None)) \<and>
          alternating (rand s) \<longrightarrow>
          (\<exists>res s'. evolve opt pop s = Some (Inr (res, s')) \<and> length res = length pop))"
proof (intro conjI allI impI)
  fix res s'
  assume "evolve opt pop s = Some (Inr (res, s'))"
  from evolve_shape [OF this] show "length res = length pop"
    by blast
next
  assume wf: "nn_param_choices opt \<noteq> [] \<and>
          (\<forall>kv\<in>set (nn_param_choices opt). snd kv \<noteq> []) \<and>
          (\<forall>a\<in>set pop. a < length (heap s) \<and>
             (\<forall>k\<in>param_keys opt. network (heap s ! a) k \<noteq> None)) \<and>
          alternating (rand s)"
  then have "\<exists>res s'. evolve opt pop s = Some (Inr (res, s'))"
    by (intro evolve_returns [OF assms]) simp_all
  then obtain res s' where run: "evolve opt pop s = Some (Inr (res, s'))"
    by blast
  from evolve_shape [OF run] have "length res = length pop"
    by blast
  with run show "\<exists>res s'. evolve opt pop s = Some (Inr (res, s')) \<and> length res = length pop"
    by blast
qed

theorem evolve_length_witness:
  "\<exists>res s'. evolve example_opt [0, 1, 2, 3] \<lparr>heap = example_heap, rand = flip_draws\<rparr> =
       Some (Inr (res, s')) \<and> length res = 4"
proof -
  let ?s = "\<lparr>heap = example_heap, rand = flip_draws\<rparr>"
  have h1: "graded (heap ?s) [0, 1, 2, 3] = Inr [1, 2, 3, 0]"
    using example_graded by simp
  have h2: "select_parents example_opt [1, 2, 3, 0] (rand ?s) =
              Inr ([1, 2], stl (stl flip_draws))"
    using example_parents by simp
  have h3: "2 \<le> length [1 :: addr, 2]"
    by simp
  have wf: "nn_param_choices example_opt \<noteq> [] \<and>
          (\<forall>kv\<in>set (nn_param_choices example_opt). snd kv \<noteq> []) \<and>
          (\<forall>a\<in>set [0, 1, 2, 3]. a < length (heap ?s) \<and>
             (\<forall>k\<in>param_keys example_opt. network (heap ?s ! a) k \<noteq> None)) \<and>
          alternating (rand ?s)"
    by (simp add: alternating_flip_draws param_keys_def example_defs)
  from evolve_length [OF h1 h2 h3] wf
  have "\<exists>res s'. evolve example_opt [0, 1, 2, 3] ?s = Some (Inr (res, s')) \<and>
          length res = length [0 :: addr, 1, 2, 3]"
    by blast
  then obtain res s' where
    run: "evolve example_opt [0, 1, 2, 3] ?s = Some (Inr (res, s'))"
    and len: "length res = length [0 :: addr, 1, 2, 3]"
    by blast
  from len have "length res = 4"
    by simp
  with run show ?thesis
    by blast
qed

section \<open>Aliasing\<close>

text \<open>
  C10: a run of \<^verbatim>\<open>evolve\<close> that returns leaves every object of the store it started
  from as it was, mapping and cost: the store it returns is the old one followed by new
  objects. The population returned is parents followed by children; the parents are
  genomes of the input, the very objects, and each child is one of the new objects. The
  same holds of \<^verbatim>\<open>breed\<close>, whose two children are the two objects it appends: \<^verbatim>\<open>mutate\<close>
  has written into none of the old ones.
\<close>

theorem evolve_frame:
  "(evolve opt pop s = Some (Inr (res, s')) \<longrightarrow>
      (\<exists>parents children new.
         res = parents @ children \<and> mset parents \<subseteq># mset pop \<and>
         heap s' = heap s @ new \<and>
         (\<forall>a<length (heap s). heap s' ! a = heap s ! a) \<and>
         (\<forall>c\<in>set children. length (heap s) \<le> c \<and> c < length (heap s')))) \<and>
   (breed opt mother father s = Inr (babies, t) \<longrightarrow>
      (\<exists>g1 g2. babies = [length (heap s), Suc (length (heap s))] \<and>
         heap t = heap s @ [g1, g2] \<and>
         (\<forall>a<length (heap s). heap t ! a = heap s ! a)))"
proof (intro conjI impI)
  assume "evolve opt pop s = Some (Inr (res, s'))"
  from evolve_shape [OF this] obtain g parents r1 children new where
    g: "graded (heap s) pop = Inr g"
    and sel: "select_parents opt g (rand s) = Inr (parents, r1)"
    and res: "res = parents @ children"
    and new: "heap s' = heap s @ new"
    and fresh: "\<forall>c\<in>set children. length (heap s) \<le> c \<and> c < length (heap s')"
    by blast
  from graded_Inr [OF g] select_parents_shape [OF sel] have "mset parents \<subseteq># mset pop"
    by auto
  moreover have "\<forall>a<length (heap s). heap s' ! a = heap s ! a"
    by (simp add: new nth_append)
  ultimately show "\<exists>parents children new.
         res = parents @ children \<and> mset parents \<subseteq># mset pop \<and>
         heap s' = heap s @ new \<and>
         (\<forall>a<length (heap s). heap s' ! a = heap s ! a) \<and>
         (\<forall>c\<in>set children. length (heap s) \<le> c \<and> c < length (heap s'))"
    using res new fresh by blast
next
  assume "breed opt mother father s = Inr (babies, t)"
  from breed_Inr [OF this] obtain g1 g2 where
    "babies = [length (heap s), Suc (length (heap s))]" "heap t = heap s @ [g1, g2]"
    by blast
  then show "\<exists>g1 g2. babies = [length (heap s), Suc (length (heap s))] \<and>
         heap t = heap s @ [g1, g2] \<and>
         (\<forall>a<length (heap s). heap t ! a = heap s ! a)"
    by (auto simp: nth_append)
qed

theorem evolve_frame_witness:
  "\<exists>s'. evolve example_opt [0, 1, 2, 3] \<lparr>heap = example_heap, rand = example_draws\<rparr> =
          Some (Inr ([1, 2, 4, 5], s')) \<and>
        network (heap s' ! 5) ''neurons'' = Some 16 \<and>
        heap s' ! 0 = genome_A \<and> heap s' ! 1 = genome_B \<and>
        heap s' ! 2 = genome_C \<and> heap s' ! 3 = genome_D"
proof -
  let ?s = "\<lparr>heap = example_heap, rand = example_draws\<rparr>"
  from example_run obtain s' where
    run: "evolve example_opt [0, 1, 2, 3] ?s = Some (Inr ([1, 2, 4, 5], s'))"
    and mutated: "network (heap s' ! 5) ''neurons'' = Some 16"
    by blast
  from evolve_frame [of example_opt "[0, 1, 2, 3]" ?s "[1, 2, 4, 5]" s'] run
  have "\<forall>a<length (heap ?s). heap s' ! a = heap ?s ! a"
    by blast
  then have "\<forall>a<4. heap s' ! a = example_heap ! a"
    by (simp add: example_heap_def)
  then have "heap s' ! 0 = example_heap ! 0" "heap s' ! 1 = example_heap ! 1"
    "heap s' ! 2 = example_heap ! 2" "heap s' ! 3 = example_heap ! 3"
    by simp_all
  with run mutated show ?thesis
    by (intro exI [of _ s']) (simp add: example_heap_def)
qed

end
